theory Spec2Isabelle
  imports Main
begin

section \<open>Errors\<close>

text \<open>
  Every \<^verbatim>\<open>throw new Error(...)\<close> of the sources is one constructor, named after the
  condition its message reports. \<open>TypeError\<close> is the error the JavaScript runtime raises
  when a property of \<^verbatim>\<open>undefined\<close> is read or a value that is not a function is called.
  \<open>StackEmpty\<close> is the failure of \<^verbatim>\<open>Stack.pop\<close> on an empty stack.

  \<^item> \<open>MustProvideChildren\<close>: "Must provide one or more 'children'."
  \<^item> \<open>MustBeWithoutParent\<close>: "Must all be without a 'parent' before attaching to another."
  \<^item> \<open>MustHaveCompatibleBrand\<close>: "Must all have a compatible brand."
  \<^item> \<open>MustAllBeChildren\<close>: "Must all be 'children'."
  \<^item> \<open>MustClearBrandBeforeDetach\<close>: "Must clear brand using the 'DeBrand' delegate before
    you can detach a branded node."
  \<^item> \<open>CannotDetachRoot\<close>: "Can't detach a root node as there's nothing to detach it from."
  \<^item> \<open>InvalidObjectState\<close>: "Invalid object state: It should not be possible for the node
    not to be a child of its parent!."
  \<^item> \<open>BrandCannotBeUndefined\<close>: "The brand cannot be 'undefined'."
  \<^item> \<open>MustClearExistingBrand\<close>: "Must clear existing brand using the 'DeBrand' delegate
    before you can re-brand a node."
  \<^item> \<open>IdMustBeMember\<close>: "The 'id' must be a hierarchy member."
  \<^item> \<open>ParentIdMustBeMember\<close>: "The 'parentId' must be a hierarchy member."
  \<^item> \<open>RootsMustBeRoots\<close>: "The 'roots' all be roots!"
\<close>

datatype error =
    MustProvideChildren
  | MustBeWithoutParent
  | MustHaveCompatibleBrand
  | MustAllBeChildren
  | MustClearBrandBeforeDetach
  | CannotDetachRoot
  | InvalidObjectState
  | BrandCannotBeUndefined
  | MustClearExistingBrand
  | IdMustBeMember
  | ParentIdMustBeMember
  | RootsMustBeRoots
  | TypeError
  | StackEmpty

section \<open>Nodes on a heap\<close>

text \<open>
  A \<^verbatim>\<open>Node<TItem>\<close> is a mutable object, and nodes point at each other, so nodes live
  on a heap: a reference is an address, the heap gives the fields of the object at
  every address. A JavaScript reference always denotes an object, hence the heap is a
  total function.

  The brand is \<^verbatim>\<open>any\<close> value but \<^verbatim>\<open>undefined\<close>. What \<^verbatim>\<open>Node\<close> does with it is to call its
  \<^verbatim>\<open>Equals\<close> method on another brand, so a brand value is its object identity together
  with its \<^verbatim>\<open>Equals\<close> method when it has one; the method receives the other brand
  (by identity).

  \<^verbatim>\<open>#children\<close> is an optional \<^verbatim>\<open>Set<Node>\<close>: a JavaScript \<^verbatim>\<open>Set\<close> iterates in insertion
  order and holds no element twice, so it is a list with \<open>Set_add\<close> and \<open>Set_delete\<close>.
\<close>

type_synonym ref = nat

record owner =
  oid :: nat
  Equals :: "(nat \<Rightarrow> bool) option"

record 'item Node =
  item :: 'item
  parent :: "ref option"
  children :: "ref list option"
  brand :: "owner option"

type_synonym 'item heap = "ref \<Rightarrow> 'item Node"

text \<open>The outcome of a method that mutates: the error thrown, if any, and the heap
  as it is when the method returns or throws.\<close>

type_synonym 'item outcome = "error option \<times> 'item heap"

definition Set_add :: "'a list \<Rightarrow> 'a \<Rightarrow> 'a list" where
  "Set_add xs x = (if x \<in> set xs then xs else xs @ [x])"

definition Set_delete :: "'a list \<Rightarrow> 'a \<Rightarrow> 'a list" where
  "Set_delete xs x = removeAll x xs"

text \<open>\<^verbatim>\<open>new Node(item)\<close>, allocated at the address \<open>r\<close>.\<close>

definition new_Node :: "'item heap \<Rightarrow> ref \<Rightarrow> 'item \<Rightarrow> 'item heap" where
  "new_Node h r i = h(r := \<lparr>item = i, parent = None, children = None, brand = None\<rparr>)"

subsection \<open>Accessors and predicates\<close>

text \<open>\<^verbatim>\<open>get children() { return this.#children ? [ ...this.#children ] : []; }\<close>\<close>

definition children_get :: "'item heap \<Rightarrow> ref \<Rightarrow> ref list" where
  "children_get h this = (case children (h this) of None \<Rightarrow> [] | Some cs \<Rightarrow> cs)"

definition isRoot :: "'item heap \<Rightarrow> ref \<Rightarrow> bool" where
  "isRoot h this = (parent (h this) = None)"

definition isLeaf :: "'item heap \<Rightarrow> ref \<Rightarrow> bool" where
  "isLeaf h this = (case children (h this) of None \<Rightarrow> True | Some cs \<Rightarrow> length cs = 0)"

definition isInternal :: "'item heap \<Rightarrow> ref \<Rightarrow> bool" where
  "isInternal h this = (\<not> isLeaf h this)"

definition isLinked :: "'item heap \<Rightarrow> ref \<Rightarrow> bool" where
  "isLinked h this = (\<not> isRoot h this \<or> \<not> isLeaf h this)"

definition isBranded :: "'item heap \<Rightarrow> ref \<Rightarrow> bool" where
  "isBranded h this = (case brand (h this) of None \<Rightarrow> False | Some b \<Rightarrow> True)"

subsection \<open>Brands\<close>

text \<open>
  \<^verbatim>\<open>
  public isBrandCompatible(other: Node<TItem>): boolean {
    if (this.#brand === undefined)
      return other.#brand === undefined;
    else if (other.#brand === undefined)
      return false;
    else
      return this.#brand.Equals(other.#brand);
  }\<close>
  The call \<^verbatim>\<open>this.#brand.Equals(...)\<close> throws a \<open>TypeError\<close> when the brand has no
  \<^verbatim>\<open>Equals\<close> method.
\<close>

definition isBrandCompatible :: "'item heap \<Rightarrow> ref \<Rightarrow> ref \<Rightarrow> error + bool" where
  "isBrandCompatible h this other =
     (case brand (h this) of
        None \<Rightarrow> Inr (case brand (h other) of None \<Rightarrow> True | Some b' \<Rightarrow> False)
      | Some b \<Rightarrow>
          (case brand (h other) of
             None \<Rightarrow> Inr False
           | Some b' \<Rightarrow>
               (case Equals b of
                  None \<Rightarrow> Inl TypeError
                | Some eq \<Rightarrow> Inr (eq (oid b')))))"

text \<open>
  The \<^verbatim>\<open>DeBrand\<close> delegate \<^verbatim>\<open>() => this.#brand = undefined\<close> is a closure over the node
  that was branded, and nothing else.
\<close>

datatype DeBrand = DeBrand ref

text \<open>
  \<^verbatim>\<open>
  public brand(brand: any): DeBrand {
    if (brand === undefined) throw ...;
    if (this.#brand !== undefined) throw ...;
    this.#brand = brand;
    return () => this.#brand = undefined;
  }\<close>
  The argument is \<open>None\<close> for \<^verbatim>\<open>undefined\<close>.
\<close>

definition Node_brand :: "'item heap \<Rightarrow> ref \<Rightarrow> owner option \<Rightarrow> (error + DeBrand) \<times> 'item heap" where
  "Node_brand h this b =
     (case b of
        None \<Rightarrow> (Inl BrandCannotBeUndefined, h)
      | Some v \<Rightarrow>
          (case brand (h this) of
             Some old \<Rightarrow> (Inl MustClearExistingBrand, h)
           | None \<Rightarrow> (Inr (DeBrand this), h(this := (h this)\<lparr>brand := Some v\<rparr>))))"

fun call_DeBrand :: "'item heap \<Rightarrow> DeBrand \<Rightarrow> 'item heap" where
  "call_DeBrand h (DeBrand n) = h(n := (h n)\<lparr>brand := None\<rparr>)"

subsection \<open>Links\<close>

text \<open>\<^verbatim>\<open>nodes.every(node => node.isBrandCompatible(this))\<close>: stops at the first
  \<^verbatim>\<open>false\<close>, and at the first call that throws.\<close>

fun every_isBrandCompatible :: "'item heap \<Rightarrow> ref list \<Rightarrow> ref \<Rightarrow> error + bool" where
  "every_isBrandCompatible h [] this = Inr True"
| "every_isBrandCompatible h (n # ns) this =
     (case isBrandCompatible h n this of
        Inl e \<Rightarrow> Inl e
      | Inr ok \<Rightarrow> (if ok then every_isBrandCompatible h ns this else Inr False))"

text \<open>One round of the loop of \<^verbatim>\<open>attach\<close>:
  \<^verbatim>\<open>this.#children.add(child); child.#parent = this;\<close>\<close>

definition attach_child :: "ref \<Rightarrow> 'item heap \<Rightarrow> ref \<Rightarrow> 'item heap" where
  "attach_child this h child =
     (let h1 = h(this := (h this)\<lparr>children := Some (Set_add (children_get h this) child)\<rparr>)
      in h1(child := (h1 child)\<lparr>parent := Some this\<rparr>))"

text \<open>
  \<^verbatim>\<open>
  public attach(children: Multiple<Node<TItem>>): this {
    const nodes = spreadMultiple(children);
    if (nodes.length === 0) throw ...;
    if (!nodes.every(node => node.isRoot)) throw ...;
    if (!nodes.every(node => node.isBrandCompatible(this))) throw ...;
    this.#children ??= new Set<Node<TItem>>();
    for (let child of nodes) { this.#children.add(child); child.#parent = this; }
    return this;
  }\<close>
  \<open>nodes\<close> is the argument spread into an array: a \<^verbatim>\<open>Multiple<T>\<close> is one item or a
  collection of items, and \<^verbatim>\<open>spreadMultiple\<close> (\<^verbatim>\<open>collections/iteration/multiple.ts\<close>, not
  among the sources) makes the array of them, so a single node is the list of that node.
\<close>

definition Node_attach :: "'item heap \<Rightarrow> ref \<Rightarrow> ref list \<Rightarrow> 'item outcome" where
  "Node_attach h this nodes =
     (if length nodes = 0 then (Some MustProvideChildren, h)
      else if \<not> list_all (isRoot h) nodes then (Some MustBeWithoutParent, h)
      else
        (case every_isBrandCompatible h nodes this of
           Inl e \<Rightarrow> (Some e, h)
         | Inr ok \<Rightarrow>
             (if \<not> ok then (Some MustHaveCompatibleBrand, h)
              else
                (let h0 = h(this := (h this)\<lparr>children := Some (children_get h this)\<rparr>)
                 in (None, foldl (attach_child this) h0 nodes)))))"

text \<open>One round of the loop of \<^verbatim>\<open>detach\<close>:
  \<^verbatim>\<open>this.#children!.delete(node); node.#parent = undefined;\<close>\<close>

definition detach_child :: "ref \<Rightarrow> 'item heap \<Rightarrow> ref \<Rightarrow> 'item heap" where
  "detach_child this h node =
     (let h1 = h(this := (h this)\<lparr>children := Some (Set_delete (children_get h this) node)\<rparr>)
      in h1(node := (h1 node)\<lparr>parent := None\<rparr>))"

definition Node_detach :: "'item heap \<Rightarrow> ref \<Rightarrow> ref list \<Rightarrow> 'item outcome" where
  "Node_detach h this nodes =
     (if length nodes = 0 then (Some MustProvideChildren, h)
      else if isLeaf h this \<or> \<not> list_all (\<lambda>c. c \<in> set (children_get h this)) nodes
        then (Some MustAllBeChildren, h)
      else if list_ex (isBranded h) nodes then (Some MustClearBrandBeforeDetach, h)
      else
        (let h1 = foldl (detach_child this) h nodes
         in (None, if isLeaf h1 this then h1(this := (h1 this)\<lparr>children := None\<rparr>) else h1)))"

text \<open>
  \<^verbatim>\<open>
  public detachSelf(): this {
    if (this.isRoot) throw ...;
    if (this.isBranded) throw ...;
    if (this.#parent!.isLeaf || !this.#parent!.#children!.has(this)) throw ...;
    this.#parent!.#children!.delete(this);
    if (this.#parent!.isLeaf) this.#parent!.#children = undefined;
    this.#parent = undefined;
    return this;
  }\<close>
\<close>

definition Node_detachSelf :: "'item heap \<Rightarrow> ref \<Rightarrow> 'item outcome" where
  "Node_detachSelf h this =
     (case parent (h this) of
        None \<Rightarrow> (Some CannotDetachRoot, h)
      | Some p \<Rightarrow>
          (if isBranded h this then (Some MustClearBrandBeforeDetach, h)
           else if isLeaf h p \<or> this \<notin> set (children_get h p) then (Some InvalidObjectState, h)
           else
             (let h1 = h(p := (h p)\<lparr>children := Some (Set_delete (children_get h p) this)\<rparr>);
                  h2 = (if isLeaf h1 p then h1(p := (h1 p)\<lparr>children := None\<rparr>) else h1)
              in (None, h2(this := (h2 this)\<lparr>parent := None\<rparr>)))))"

section \<open>The graph control signal\<close>

datatype TraversalType = BreadthFirst | DepthFirst

text \<open>
  Modelled from the spec: \<^verbatim>\<open>LinearQueue\<close> and \<^verbatim>\<open>LinearStack\<close>
  (\<^verbatim>\<open>collections/queue.ts\<close> and \<^verbatim>\<open>collections/stack.ts\<close> are not among the sources; only
  the interface \<^verbatim>\<open>ILinear\<close> is). The spec: "\<^verbatim>\<open>attach(items)\<close> appends one or more items,
  returns count appended; \<^verbatim>\<open>detach()\<close> removes and returns one item, failing (non-throwing
  result) when empty; [...] Two variants: stack (LIFO) backing depth-first traversal,
  queue (FIFO) backing breadth-first traversal."

  A buffer is the list of its items in the order \<^verbatim>\<open>tryDetach\<close> hands them out: the queue
  appends at the far end, the stack puts each appended item on top of the ones before it.
  The flag says which variant the buffer is (\<open>True\<close> for the stack).
\<close>

definition Linear_attach :: "bool \<Rightarrow> 'n list \<Rightarrow> 'n list \<Rightarrow> 'n list \<times> int" where
  "Linear_attach stack buf items =
     (if stack then rev items @ buf else buf @ items, int (length items))"

text \<open>Modelled from the spec: \<^verbatim>\<open>tryDetach\<close> of the same two buffers, which "removes and
  returns one item, failing (non-throwing result) when empty".\<close>

definition Linear_tryDetach :: "'n list \<Rightarrow> ('n \<times> 'n list) option" where
  "Linear_tryDetach buf = (case buf of [] \<Rightarrow> None | x # xs \<Rightarrow> Some (x, xs))"

text \<open>
  The private fields of \<^verbatim>\<open>GraphSignal\<close>. \<open>branchCount\<close> is the \<^verbatim>\<open>Stack<number>\<close>, top
  first; it stays empty in a breadth-first traversal, where the source never creates it.
  The class \<^verbatim>\<open>Stack\<close> is not among the sources either; of it the signal uses \<^verbatim>\<open>push\<close>,
  \<^verbatim>\<open>pop\<close>, \<^verbatim>\<open>tryPeek\<close> and \<^verbatim>\<open>count\<close>, which the spec calls "a stack of per-branch
  remaining-child counts": a list, on which \<^verbatim>\<open>pop\<close> fails when there is nothing to pop.
\<close>

record 'n GraphSignal =
  visited :: "'n list option"
  isDepthFirst :: bool
  nodes :: "'n list"
  depth :: int
  branchCount :: "int list"
  depthCount :: int
  count :: int
  skipped :: bool

text \<open>
  \<^verbatim>\<open>
  public next(nodes: Multiple<TNode>) {
    const count = this.#nodes.attach(nodes);
    if (this.#isDepthFirst && count > 0)
      this.#branchCount.push(count);
  }\<close>
\<close>

definition GraphSignal_next :: "'n GraphSignal \<Rightarrow> 'n list \<Rightarrow> 'n GraphSignal" where
  "GraphSignal_next sig ns =
     (case Linear_attach (isDepthFirst sig) (nodes sig) ns of
        (buf, cnt) \<Rightarrow>
          sig\<lparr>nodes := buf,
              branchCount := (if isDepthFirst sig \<and> cnt > 0 then cnt # branchCount sig
                              else branchCount sig)\<rparr>)"

definition GraphSignal_skip :: "'n GraphSignal \<Rightarrow> 'n GraphSignal" where
  "GraphSignal_skip sig = sig\<lparr>skipped := True\<rparr>"

definition GraphSignal_end :: "'n GraphSignal \<Rightarrow> 'n GraphSignal" where
  "GraphSignal_end sig = sig\<lparr>nodes := []\<rparr>"

text \<open>
  The constructor; \<open>detectCycles\<close> is \<^verbatim>\<open>options.detectCycles ?? false\<close> and \<open>type\<close> is
  \<open>None\<close> when the option is left out.
  \<^verbatim>\<open>
  if (options.detectCycles ?? false) this.#visited = new Set<TNode>();
  this.#isDepthFirst = options.type === 'depth-first';
  this.#nodes = this.#isDepthFirst ? new LinearStack<TNode>() : new LinearQueue<TNode>();
  this.#depthCount = this.#nodes.attach(options.roots);
  if (this.#isDepthFirst) {
    this.#branchCount = new Stack<number>();
    this.#branchCount.push(this.#depthCount);
  }\<close>
\<close>

definition GraphSignal_new :: "'n list \<Rightarrow> bool \<Rightarrow> TraversalType option \<Rightarrow> 'n GraphSignal" where
  "GraphSignal_new roots detectCycles type =
     (let df = (type = Some DepthFirst)
      in (case Linear_attach df [] roots of
            (buf, cnt) \<Rightarrow>
              \<lparr>visited = (if detectCycles then Some [] else None),
               isDepthFirst = df,
               nodes = buf,
               depth = 0,
               branchCount = (if df then [cnt] else []),
               depthCount = cnt,
               count = 0,
               skipped = False\<rparr>))"

definition shouldYield :: "'n GraphSignal \<Rightarrow> bool" where
  "shouldYield sig = (\<not> skipped sig)"

text \<open>
  \<^verbatim>\<open>
  public cleanup(): void {
    if (this.#isDepthFirst) {
      let res = this.#branchCount.tryPeek();
      while (res.success && res.value === 0) {
        this.#branchCount.pop();
        res = this.#branchCount.tryPeek();
      }
    }
    if (!this.#skipped) this.#count++;
  }\<close>
\<close>

definition cleanup :: "'n GraphSignal \<Rightarrow> 'n GraphSignal" where
  "cleanup sig =
     (let sig1 = (if isDepthFirst sig
                  then sig\<lparr>branchCount := dropWhile (\<lambda>c. c = 0) (branchCount sig)\<rparr>
                  else sig)
      in if \<not> skipped sig1 then sig1\<lparr>count := count sig1 + 1\<rparr> else sig1)"

text \<open>
  \<^verbatim>\<open>
  private tryGetNextInternal(): TryResult<TNode> {
    const res = this.#nodes.tryDetach();
    if (res.success) {
      this.#skipped = false;
      if (this.#isDepthFirst) {
        this.#depth = this.#branchCount.count - 1;
        this.#branchCount.push(this.#branchCount.pop() - 1);
      }
      else {
        if (this.#depthCount-- == 0) {
          this.#depth++;
          this.#depthCount = this.#nodes.count;
        }
      }
      this.#skipped = false;
      return res;
    }
    else return res;
  }\<close>
  \<^verbatim>\<open>Stack.pop\<close> on an empty stack is the error \<open>StackEmpty\<close>.
\<close>

definition tryGetNextInternal :: "'n GraphSignal \<Rightarrow> error + ('n option \<times> 'n GraphSignal)" where
  "tryGetNextInternal sig =
     (case Linear_tryDetach (nodes sig) of
        None \<Rightarrow> Inr (None, sig)
      | Some (x, rest) \<Rightarrow>
          (let sig1 = sig\<lparr>nodes := rest, skipped := False\<rparr>
           in if isDepthFirst sig1 then
                (case branchCount sig1 of
                   [] \<Rightarrow> Inl StackEmpty
                 | c # cs \<Rightarrow>
                     Inr (Some x, sig1\<lparr>depth := int (length (branchCount sig1)) - 1,
                                       branchCount := (c - 1) # cs\<rparr>))
              else if depthCount sig1 = 0 then
                Inr (Some x, sig1\<lparr>depth := depth sig1 + 1, depthCount := int (length rest)\<rparr>)
              else
                Inr (Some x, sig1\<lparr>depthCount := depthCount sig1 - 1\<rparr>)))"

text \<open>
  \<^verbatim>\<open>
  public tryGetNext(): TryResult<TNode> {
    if (this.#visited !== undefined) {
      let res: TryResult<TNode> = this.tryGetNextInternal();
      while (res.success) {
        if (!this.#visited.has(res.value)) {
          this.#visited.add(res.value);
          return res;
        }
        res = this.tryGetNextInternal();
      }
      return { success: false };
    }
    else return this.tryGetNextInternal();
  }\<close>
  The loop ends because every round takes one node off the buffer.
\<close>

function tryGetNext :: "'n GraphSignal \<Rightarrow> error + ('n option \<times> 'n GraphSignal)" where
  "tryGetNext sig =
     (case visited sig of
        None \<Rightarrow> tryGetNextInternal sig
      | Some vs \<Rightarrow>
          (case tryGetNextInternal sig of
             Inl e \<Rightarrow> Inl e
           | Inr (None, sig1) \<Rightarrow> Inr (None, sig1)
           | Inr (Some x, sig1) \<Rightarrow>
               (if x \<notin> set vs then Inr (Some x, sig1\<lparr>visited := Some (Set_add vs x)\<rparr>)
                else tryGetNext sig1)))"
  by pat_completeness auto
termination
  by (relation "measure (\<lambda>sig. length (nodes sig))")
    (auto simp: tryGetNextInternal_def Linear_tryDetach_def Let_def split: list.splits if_splits)

declare tryGetNext.simps [simp del]

section \<open>The traversal drivers\<close>

text \<open>
  Modelled from the spec: \<^verbatim>\<open>traverseGraph\<close> (\<^verbatim>\<open>traversal/traverse-graph.ts\<close> is not among
  the sources). The spec: "Pulls from the control signal in a loop: pull candidate, invoke
  consumer signal callback (or default), if signal indicates `should yield' (not skipped),
  yield the node, perform cleanup bookkeeping, repeat until the frontier reports empty",
  and "if no callback is supplied, default behavior is: always yield, and advance into the
  node's intrinsic children (via the ambient \<^verbatim>\<open>next\<close> accessor function)".

  The sequence is lazy: the consumer's code runs at each yield, between the call of
  \<^verbatim>\<open>next\<close> for the yielded node and the cleanup. So the model is the loop
  \<^verbatim>\<open>for (let node of traverseGraph({roots, next, ...})) body(node)\<close>
  over a state \<open>s\<close> that the body changes and \<^verbatim>\<open>next\<close> reads; the body may throw, which
  ends the loop. Only the default callback is modelled. The loop may run forever (a
  cyclic graph without cycle detection), so it takes fuel: the number of rounds it may
  make, \<open>None\<close> when they do not suffice.
\<close>

fun for_traverseGraph ::
  "nat \<Rightarrow> ('s \<Rightarrow> 'n \<Rightarrow> 'n list) \<Rightarrow> ('s \<Rightarrow> 'n \<Rightarrow> error option \<times> 's) \<Rightarrow> 'n GraphSignal \<Rightarrow> 's
     \<Rightarrow> (error option \<times> 's) option" where
  "for_traverseGraph 0 nxt body sig s = None"
| "for_traverseGraph (Suc fuel) nxt body sig s =
     (case tryGetNext sig of
        Inl e \<Rightarrow> Some (Some e, s)
      | Inr (None, sig1) \<Rightarrow> Some (None, s)
      | Inr (Some n, sig1) \<Rightarrow>
          (let sig2 = GraphSignal_next sig1 (nxt s n)
           in (case (if shouldYield sig2 then body s n else (None, s)) of
                 (Some e, s') \<Rightarrow> Some (Some e, s')
               | (None, s') \<Rightarrow> for_traverseGraph fuel nxt body (cleanup sig2) s')))"

text \<open>Modelled from the spec: the eager form \<^verbatim>\<open>[ ...traverseGraph(options) ]\<close> of the
  same driver, over a graph that does not change meanwhile: the body of the loop appends
  the node to the array.\<close>

definition traverseGraph ::
  "nat \<Rightarrow> ('n \<Rightarrow> 'n list) \<Rightarrow> 'n list \<Rightarrow> bool \<Rightarrow> TraversalType option \<Rightarrow> (error + 'n list) option" where
  "traverseGraph fuel nxt roots detectCycles type =
     (case for_traverseGraph fuel (\<lambda>acc. nxt) (\<lambda>acc n. (None, acc @ [n]))
             (GraphSignal_new roots detectCycles type) [] of
        None \<Rightarrow> None
      | Some (Some e, acc) \<Rightarrow> Some (Inl e)
      | Some (None, acc) \<Rightarrow> Some (Inr acc))"

section \<open>The sequence signal and its driver\<close>

text \<open>The private fields of \<^verbatim>\<open>SequenceSignal\<close>.\<close>

record 'e SequenceSignal =
  element :: "'e option"
  index :: int
  seq_count :: int
  seq_skipped :: bool

definition SequenceSignal_new :: "'e option \<Rightarrow> 'e SequenceSignal" where
  "SequenceSignal_new first = \<lparr>element = first, index = - 1, seq_count = 0, seq_skipped = False\<rparr>"

definition SequenceSignal_next :: "'e SequenceSignal \<Rightarrow> 'e option \<Rightarrow> 'e SequenceSignal" where
  "SequenceSignal_next sig e = sig\<lparr>element := e\<rparr>"

definition SequenceSignal_shouldYield :: "'e SequenceSignal \<Rightarrow> bool" where
  "SequenceSignal_shouldYield sig = (\<not> seq_skipped sig)"

definition SequenceSignal_cleanup :: "'e SequenceSignal \<Rightarrow> 'e SequenceSignal" where
  "SequenceSignal_cleanup sig =
     (if \<not> seq_skipped sig then sig\<lparr>seq_count := seq_count sig + 1\<rparr> else sig)"

text \<open>
  \<^verbatim>\<open>
  public tryGetNext(): TryResult<TEl> {
    if (this.#element !== undefined) {
      const element = this.#element;
      this.#skipped = false;
      this.#element = undefined;
      this.#index++;
      return { value: element, success: true };
    }
    else return { success: false };
  }\<close>
\<close>

definition SequenceSignal_tryGetNext :: "'e SequenceSignal \<Rightarrow> 'e option \<times> 'e SequenceSignal" where
  "SequenceSignal_tryGetNext sig =
     (case element sig of
        Some el \<Rightarrow> (Some el, sig\<lparr>seq_skipped := False, element := None, index := index sig + 1\<rparr>)
      | None \<Rightarrow> (None, sig))"

text \<open>
  Modelled from the spec: \<^verbatim>\<open>traverseSequence\<close> (\<^verbatim>\<open>traversal/traverse-sequence.ts\<close> is not
  among the sources). The spec: "Given a \<^verbatim>\<open>first\<close> element (possibly absent) and a
  \<^verbatim>\<open>next(element)\<close> function, produces a lazy, finite (terminates when \<^verbatim>\<open>next\<close> yields
  absent), forward-only, non-restartable sequence starting at \<^verbatim>\<open>first\<close> (inclusive)",
  and a \<^verbatim>\<open>next\<close> that cycles "causes non-termination". The loop is the one of the graph
  driver over the sequence signal; it takes fuel for the same reason.
\<close>

fun traverseSequence ::
  "nat \<Rightarrow> ('e \<Rightarrow> 'e option) \<Rightarrow> 'e SequenceSignal \<Rightarrow> 'e list option" where
  "traverseSequence 0 nxt sig = None"
| "traverseSequence (Suc fuel) nxt sig =
     (case SequenceSignal_tryGetNext sig of
        (None, sig1) \<Rightarrow> Some []
      | (Some el, sig1) \<Rightarrow>
          (let sig2 = SequenceSignal_next sig1 (nxt el)
           in (case traverseSequence fuel nxt (SequenceSignal_cleanup sig2) of
                 None \<Rightarrow> None
               | Some els \<Rightarrow>
                   Some (if SequenceSignal_shouldYield sig2 then el # els else els))))"

section \<open>Traversal and dismantling of nodes\<close>

text \<open>
  \<^verbatim>\<open>
  public traverseAncestors(options?: TraverseSelf) {
    return traverseSequence({
      first: options?.excludeSelf ? this.#parent : this,
      next:  node => node?.parent,
    });
  }\<close>
  \<open>getAncestors\<close> spreads the sequence into an array.
\<close>

definition getAncestors :: "nat \<Rightarrow> 'item heap \<Rightarrow> ref \<Rightarrow> bool \<Rightarrow> ref list option" where
  "getAncestors fuel h this excludeSelf =
     traverseSequence fuel (\<lambda>node. parent (h node))
       (SequenceSignal_new (if excludeSelf then parent (h this) else Some this))"

text \<open>
  \<^verbatim>\<open>
  public traverseDescendants(options?: TraverseGraphSelf) {
    return traverseGraph({
      type:  options?.type,
      roots: options?.excludeSelf ? this.children : this,
      next:  node => node.children,
    });
  }\<close>
  \<open>getDescendants\<close> spreads the sequence into an array.
\<close>

definition getDescendants ::
  "nat \<Rightarrow> 'item heap \<Rightarrow> ref \<Rightarrow> TraversalType option \<Rightarrow> bool \<Rightarrow> (error + ref list) option" where
  "getDescendants fuel h this type excludeSelf =
     traverseGraph fuel (children_get h)
       (if excludeSelf then children_get h this else [this]) False type"

text \<open>
  \<^verbatim>\<open>
  public dismantle(includeAncestry: boolean): this {
    if (!this.isRoot && includeAncestry) {
      const parent = this.#parent!;
      this.detachSelf();
      parent.dismantle(true);
    }
    for (let descendant of this.traverseDescendants({ excludeSelf: true }))
      descendant.detachSelf();
    return this;
  }\<close>
  The descendants are traversed lazily while the loop body detaches them, so the loop
  is \<open>for_traverseGraph\<close> over the heap. The fuel bounds the recursion and every loop.
\<close>

fun Node_dismantle :: "nat \<Rightarrow> 'item heap \<Rightarrow> ref \<Rightarrow> bool \<Rightarrow> 'item outcome option" where
  "Node_dismantle 0 h this includeAncestry = None"
| "Node_dismantle (Suc fuel) h this includeAncestry =
     (case (case (parent (h this), includeAncestry) of
              (Some p, True) \<Rightarrow>
                (case Node_detachSelf h this of
                   (Some e, h1) \<Rightarrow> Some (Some e, h1)
                 | (None, h1) \<Rightarrow> Node_dismantle fuel h1 p True)
            | (Some p, False) \<Rightarrow> Some (None, h)
            | (None, incl) \<Rightarrow> Some (None, h)) of
        None \<Rightarrow> None
      | Some (Some e, h2) \<Rightarrow> Some (Some e, h2)
      | Some (None, h2) \<Rightarrow>
          for_traverseGraph fuel children_get Node_detachSelf
            (GraphSignal_new (children_get h2 this) False None) h2)"

section \<open>Maps and arrays\<close>

text \<open>
  A JavaScript \<^verbatim>\<open>Map\<close> iterates in insertion order, and \<^verbatim>\<open>set\<close> on a key it has keeps the
  key's place: an association list with one entry for each key.
\<close>

fun Map_set :: "('k \<times> 'v) list \<Rightarrow> 'k \<Rightarrow> 'v \<Rightarrow> ('k \<times> 'v) list" where
  "Map_set [] k v = [(k, v)]"
| "Map_set ((k', v') # m) k v = (if k' = k then (k, v) # m else (k', v') # Map_set m k v)"

definition Map_get :: "('k \<times> 'v) list \<Rightarrow> 'k \<Rightarrow> 'v option" where
  "Map_get m k = map_of m k"

definition Map_has :: "('k \<times> 'v) list \<Rightarrow> 'k \<Rightarrow> bool" where
  "Map_has m k = (case map_of m k of None \<Rightarrow> False | Some v \<Rightarrow> True)"


definition Map_values :: "('k \<times> 'v) list \<Rightarrow> 'v list" where
  "Map_values m = map snd m"

text \<open>
  Arrays of nodes that are objects of their own: shared when two references hold the same
  address, changed for every holder when one of them writes. \<open>nextArray\<close> is the first
  address not yet given out. \<open>Array_write\<close> stands for any mutation of an array in place
  (\<^verbatim>\<open>push\<close>, \<^verbatim>\<open>pop\<close>, \<^verbatim>\<open>splice\<close>, an assignment to an index or to \<^verbatim>\<open>length\<close>): it leaves the
  array with some new contents.
\<close>

type_synonym aref = nat

record 'item world =
  heap :: "'item heap"
  arrays :: "aref \<Rightarrow> ref list"
  nextArray :: aref

definition Array_new :: "'item world \<Rightarrow> ref list \<Rightarrow> aref \<times> 'item world" where
  "Array_new w xs =
     (nextArray w, w\<lparr>arrays := (arrays w)(nextArray w := xs), nextArray := Suc (nextArray w)\<rparr>)"

definition Array_write :: "'item world \<Rightarrow> aref \<Rightarrow> ref list \<Rightarrow> 'item world" where
  "Array_write w a xs = w\<lparr>arrays := (arrays w)(a := xs)\<rparr>"

definition Array_push :: "'item world \<Rightarrow> aref \<Rightarrow> ref list \<Rightarrow> 'item world" where
  "Array_push w a xs = Array_write w a (arrays w a @ xs)"

text \<open>The getter \<^verbatim>\<open>Node.children\<close> as a caller sees it: the array it returns is a new
  object, \<^verbatim>\<open>this.#children ? [ ...this.#children ] : []\<close>.\<close>

definition Node_children :: "'item world \<Rightarrow> ref \<Rightarrow> aref \<times> 'item world" where
  "Node_children w this = Array_new w (children_get (heap w) this)"

section \<open>Hierarchy\<close>

text \<open>
  The fields of a \<^verbatim>\<open>Hierarchy<TItem, TId>\<close>: \<open>self\<close> is the identity of the object (it
  brands nodes with \<^verbatim>\<open>this\<close>), \<open>roots\<close> the address of the array \<^verbatim>\<open>#roots\<close>, \<open>nodes_by_id\<close>
  the map \<^verbatim>\<open>#nodes\<close> and \<open>debrand\<close> the map \<^verbatim>\<open>#debrand\<close>.
\<close>

record ('item, 'id) Hierarchy =
  self :: nat
  identify :: "'item \<Rightarrow> 'id"
  roots :: aref
  nodes_by_id :: "('id \<times> ref) list"
  debrand :: "('id \<times> DeBrand) list"

text \<open>A \<^verbatim>\<open>Hierarchy\<close> as a brand value: the class declares no \<^verbatim>\<open>Equals\<close> method.\<close>

definition Hierarchy_owner :: "('item, 'id) Hierarchy \<Rightarrow> owner" where
  "Hierarchy_owner H = \<lparr>oid = self H, Equals = None\<rparr>"

text \<open>The constructor, for the object identity \<open>me\<close>; \<^verbatim>\<open>#roots: Node<TItem>[] = []\<close>
  makes a new array.\<close>

definition Hierarchy_new ::
  "'item world \<Rightarrow> nat \<Rightarrow> ('item \<Rightarrow> 'id) \<Rightarrow> ('item, 'id) Hierarchy \<times> 'item world" where
  "Hierarchy_new w me idf =
     (case Array_new w [] of
        (a, w') \<Rightarrow> (\<lparr>self = me, identify = idf, roots = a, nodes_by_id = [], debrand = []\<rparr>, w'))"

text \<open>The getters \<^verbatim>\<open>get roots() { return [ ...this.#roots ]; }\<close> and
  \<^verbatim>\<open>get nodes() { return [ ...this.#nodes.values() ]; }\<close>.\<close>

definition Hierarchy_roots :: "'item world \<Rightarrow> ('item, 'id) Hierarchy \<Rightarrow> aref \<times> 'item world" where
  "Hierarchy_roots w H = Array_new w (arrays w (roots H))"

definition Hierarchy_nodes :: "'item world \<Rightarrow> ('item, 'id) Hierarchy \<Rightarrow> aref \<times> 'item world" where
  "Hierarchy_nodes w H = Array_new w (Map_values (nodes_by_id H))"

definition getNode :: "('item, 'id) Hierarchy \<Rightarrow> 'id \<Rightarrow> error + ref" where
  "getNode H i = (case Map_get (nodes_by_id H) i of None \<Rightarrow> Inl IdMustBeMember | Some n \<Rightarrow> Inr n)"

text \<open>
  The body of the loop of \<^verbatim>\<open>#addNodes\<close>:
  \<^verbatim>\<open>
  let id = this.#identify(node.item);
  this.#debrand.set(id, node.brand(this));
  this.#nodes.set(id, node);\<close>
\<close>

definition addNodes_body ::
  "'item heap \<times> ('item, 'id) Hierarchy \<Rightarrow> ref \<Rightarrow> error option \<times> ('item heap \<times> ('item, 'id) Hierarchy)" where
  "addNodes_body s node =
     (case s of
        (h, H) \<Rightarrow>
          (let i = identify H (item (h node))
           in (case Node_brand h node (Some (Hierarchy_owner H)) of
                 (Inl e, h') \<Rightarrow> (Some e, (h', H))
               | (Inr d, h') \<Rightarrow>
                   (None, (h', H\<lparr>debrand := Map_set (debrand H) i d,
                                 nodes_by_id := Map_set (nodes_by_id H) i node\<rparr>)))))"

text \<open>
  \<^verbatim>\<open>
  #addNodes(nodes: Multiple<Node<TItem>>) {
    for (let node of traverseGraph({ roots: nodes, next: node => node.children })) { ... }
  }\<close>
\<close>

definition addNodes ::
  "nat \<Rightarrow> 'item heap \<Rightarrow> ('item, 'id) Hierarchy \<Rightarrow> ref list
     \<Rightarrow> (error option \<times> ('item heap \<times> ('item, 'id) Hierarchy)) option" where
  "addNodes fuel h H ns =
     for_traverseGraph fuel (\<lambda>s. children_get (fst s)) addNodes_body
       (GraphSignal_new ns False None) (h, H)"

text \<open>
  \<^verbatim>\<open>
  public attachRoot(roots: Multiple<Node<TItem>>): this {
    const nodes = spreadMultiple(roots);
    if (!nodes.every(n => n.isRoot)) throw new Error("The 'roots' all be roots!");
    this.#addNodes(nodes);
    this.#roots.push(...nodes);
    return this;
  }\<close>
\<close>

definition attachRoot ::
  "nat \<Rightarrow> 'item world \<Rightarrow> ('item, 'id) Hierarchy \<Rightarrow> ref list
     \<Rightarrow> (error option \<times> 'item world \<times> ('item, 'id) Hierarchy) option" where
  "attachRoot fuel w H ns =
     (if \<not> list_all (isRoot (heap w)) ns then Some (Some RootsMustBeRoots, w, H)
      else
        (case addNodes fuel (heap w) H ns of
           None \<Rightarrow> None
         | Some (Some e, (h', H')) \<Rightarrow> Some (Some e, w\<lparr>heap := h'\<rparr>, H')
         | Some (None, (h', H')) \<Rightarrow> Some (None, Array_push (w\<lparr>heap := h'\<rparr>) (roots H') ns, H')))"

text \<open>
  \<^verbatim>\<open>
  public attach(parentId: TId, children: Multiple<Node<TItem>>): this {
    const nodes = spreadMultiple(children);
    if (this.#nodes.has(parentId))
      throw new Error("The 'parentId' must be a hierarchy member.");
    this.#addNodes(nodes);
    const parent = this.#nodes.get(parentId)!;
    parent.attach(nodes);
    return this;
  }\<close>
  When \<^verbatim>\<open>this.#nodes.get(parentId)\<close> is \<^verbatim>\<open>undefined\<close>, the call \<^verbatim>\<open>parent.attach\<close> is a
  \<open>TypeError\<close>.
\<close>

definition Hierarchy_attach ::
  "nat \<Rightarrow> 'item world \<Rightarrow> ('item, 'id) Hierarchy \<Rightarrow> 'id \<Rightarrow> ref list
     \<Rightarrow> (error option \<times> 'item world \<times> ('item, 'id) Hierarchy) option" where
  "Hierarchy_attach fuel w H parentId ns =
     (if Map_has (nodes_by_id H) parentId then Some (Some ParentIdMustBeMember, w, H)
      else
        (case addNodes fuel (heap w) H ns of
           None \<Rightarrow> None
         | Some (Some e, (h', H')) \<Rightarrow> Some (Some e, w\<lparr>heap := h'\<rparr>, H')
         | Some (None, (h', H')) \<Rightarrow>
             (case Map_get (nodes_by_id H') parentId of
                None \<Rightarrow> Some (Some TypeError, w\<lparr>heap := h'\<rparr>, H')
              | Some p \<Rightarrow>
                  (case Node_attach h' p ns of
                     (err, h'') \<Rightarrow> Some (err, w\<lparr>heap := h''\<rparr>, H')))))"

text \<open>\<^verbatim>\<open>nodesToItems(nodes)\<close> pushes \<^verbatim>\<open>node.item\<close> for each node.\<close>

definition nodesToItems :: "'item heap \<Rightarrow> ref list \<Rightarrow> 'item list" where
  "nodesToItems h ns = map (\<lambda>node. item (h node)) ns"

text \<open>
  \<^verbatim>\<open>nodesToIds(nodes, identify?)\<close> pushes \<^verbatim>\<open>identify?.(node.item) ?? node.item as any\<close> for
  each node. The parameter \<^verbatim>\<open>identify\<close> is optional (\<open>None\<close> when it is left out). The
  operator \<^verbatim>\<open>??\<close> takes its right side when the left one is \<^verbatim>\<open>undefined\<close> or \<^verbatim>\<open>null\<close>:
  \<open>nullish\<close> says which values of the type of the ids are one of these two, and \<open>asId\<close> is
  the cast \<^verbatim>\<open>as any\<close>, the item taken as an id (the identity when the two types are
  one).
\<close>

definition nodesToIds ::
  "'item heap \<Rightarrow> ref list \<Rightarrow> ('item \<Rightarrow> 'id) option \<Rightarrow> ('id \<Rightarrow> bool) \<Rightarrow> ('item \<Rightarrow> 'id) \<Rightarrow> 'id list" where
  "nodesToIds h ns idf nullish asId =
     map (\<lambda>node.
            (case idf of
               None \<Rightarrow> asId (item (h node))
             | Some f \<Rightarrow>
                 (if nullish (f (item (h node))) then asId (item (h node))
                  else f (item (h node)))))
         ns"

text \<open>
  \<^verbatim>\<open>
  public getAncestorIds(options: {id: TId} & TraverseSelf) {
    return nodesToIds(this.getNode(options.id).traverseAncestors(options), this.#identify);
  }\<close>
  \<open>nullish\<close> and \<open>asId\<close> are those of \<open>nodesToIds\<close>.
\<close>

definition getAncestorIds ::
  "nat \<Rightarrow> 'item heap \<Rightarrow> ('item, 'id) Hierarchy \<Rightarrow> ('id \<Rightarrow> bool) \<Rightarrow> ('item \<Rightarrow> 'id) \<Rightarrow> 'id \<Rightarrow> bool
     \<Rightarrow> (error + 'id list) option" where
  "getAncestorIds fuel h H nullish asId i excludeSelf =
     (case getNode H i of
        Inl e \<Rightarrow> Some (Inl e)
      | Inr n \<Rightarrow>
          (case getAncestors fuel h n excludeSelf of
             None \<Rightarrow> None
           | Some ns \<Rightarrow> Some (Inr (nodesToIds h ns (Some (identify H)) nullish asId))))"

section \<open>Assembling nodes from a child-map\<close>

text \<open>
  A \<^verbatim>\<open>MultiMap<Id>\<close> is a \<^verbatim>\<open>Map<Id, Set<Id>>\<close>: the list of its entries, each with the list
  of its values. Nodes are allocated from a counter of free addresses.

\<close>








section \<open>The order of a traversal, in the words of the spec\<close>

text \<open>
  The spec describes the order of a traversal by its frontier: "the pending set of nodes
  not yet visited in a traversal, held in a stack (depth-first) or queue
  (breadth-first)"; the nodes that \<^verbatim>\<open>next\<close> gives for a yielded node are "appended to
  frontier"; and with cycle suppression there is "a set of already-yielded nodes; any
  pulled node already present is silently discarded (not yielded, not re-examined) and
  the next candidate is pulled instead". The functions of this section follow these
  words; they are what the drivers, which run on the signal of the code, are compared
  with.

  \<open>first_visits seen xs\<close> keeps of \<open>xs\<close> the first occurrence of each node that is not in
  \<open>seen\<close>: the nodes of \<open>xs\<close> in the order of their first visit.
\<close>

fun first_visits :: "'n list \<Rightarrow> 'n list \<Rightarrow> 'n list" where
  "first_visits seen [] = []"
| "first_visits seen (x # xs) =
     (if x \<in> set seen then first_visits seen xs else x # first_visits (x # seen) xs)"

text \<open>
  \<open>visit_order detect df nxt fuel frontier seen\<close> is the list of the nodes yielded from a
  frontier, given in the order in which it hands out its nodes: the head is pulled; with
  \<open>detect\<close>, a node that was yielded before (it is in \<open>seen\<close>) is discarded; else it is
  yielded, and its \<open>nxt\<close> nodes are appended to the frontier, on top of it when it is a
  stack (\<open>df\<close>), at its far end when it is a queue. The frontier is maintained in the one
  way with and without \<open>detect\<close>. One unit of fuel is used for each node yielded and one
  for finding the frontier empty.
\<close>

fun visit_order ::
  "bool \<Rightarrow> bool \<Rightarrow> ('n \<Rightarrow> 'n list) \<Rightarrow> nat \<Rightarrow> 'n list \<Rightarrow> 'n list \<Rightarrow> 'n list option" where
  "visit_order detect df nxt 0 frontier seen = None"
| "visit_order detect df nxt (Suc k) [] seen = Some []"
| "visit_order detect df nxt (Suc k) (x # rest) seen =
     (if detect \<and> x \<in> set seen then visit_order detect df nxt (Suc k) rest seen
      else map_option (Cons x)
             (visit_order detect df nxt k (if df then rev (nxt x) @ rest else rest @ nxt x)
                (x # seen)))"



section \<open>Reachability\<close>

text \<open>
  The graph that a traversal walks is given by its \<^verbatim>\<open>next\<close> function: the nodes reachable
  from the roots are those that a path of \<^verbatim>\<open>next\<close> steps leads to.
\<close>

definition edges :: "('n \<Rightarrow> 'n list) \<Rightarrow> ('n \<times> 'n) set" where
  "edges nxt = {(x, y). y \<in> set (nxt x)}"

definition reachable :: "('n \<Rightarrow> 'n list) \<Rightarrow> 'n list \<Rightarrow> 'n set" where
  "reachable nxt rs = (edges nxt)\<^sup>* `` set rs"

text \<open>
  In a depth-first traversal the branch counts add up to the size of the frontier: the
  constructor makes it so, and \<^verbatim>\<open>next\<close>, \<^verbatim>\<open>tryGetNextInternal\<close> and \<^verbatim>\<open>cleanup\<close> keep it so.
\<close>

definition counted :: "'n GraphSignal \<Rightarrow> bool" where
  "counted sig =
     (if isDepthFirst sig then sum_list (branchCount sig) = int (length (nodes sig)) else True)"

text \<open>
  What holds between the rounds of a cycle-detecting traversal from the roots \<open>rs\<close>, when
  \<open>acc\<close> are the nodes yielded so far: they are the visited set, each once; what was
  yielded or waits in the frontier is reachable; the successors of a yielded node, and
  the roots, were yielded or wait in the frontier.
\<close>

definition traversal_inv ::
  "('n \<Rightarrow> 'n list) \<Rightarrow> 'n list \<Rightarrow> 'n GraphSignal \<Rightarrow> 'n list \<Rightarrow> bool" where
  "traversal_inv nxt rs sig acc =
     (visited sig = Some acc \<and> distinct acc \<and> counted sig
      \<and> set acc \<subseteq> reachable nxt rs \<and> set (nodes sig) \<subseteq> reachable nxt rs
      \<and> (\<forall>v \<in> set acc. set (nxt v) \<subseteq> set acc \<union> set (nodes sig))
      \<and> set rs \<subseteq> set acc \<union> set (nodes sig))"

section \<open>Scenarios\<close>

text \<open>A heap of nodes that were never linked nor branded, all wrapping the item \<open>i\<close>.\<close>

definition unlinked :: "'item \<Rightarrow> 'item heap" where
  "unlinked i = (\<lambda>r. \<lparr>item = i, parent = None, children = None, brand = None\<rparr>)"

text \<open>An owner that has no \<^verbatim>\<open>Equals\<close> method, of identity \<open>k\<close>.\<close>

definition plain_owner :: "nat \<Rightarrow> owner" where
  "plain_owner k = \<lparr>oid = k, Equals = None\<rparr>"

text \<open>A heap where the node 1 has the parent 2.\<close>

definition parented :: "nat heap" where
  "parented = (unlinked 0)(1 := (unlinked 0 1)\<lparr>parent := Some 2\<rparr>)"

text \<open>A heap where the node 3 is branded by an owner, and one where the node 0 is
  branded by the same owner too.\<close>

definition one_branded :: "nat heap" where
  "one_branded = (unlinked 0)(3 := (unlinked 0 3)\<lparr>brand := Some (plain_owner 9)\<rparr>)"

definition two_branded :: "nat heap" where
  "two_branded = one_branded(0 := (one_branded 0)\<lparr>brand := Some (plain_owner 9)\<rparr>)"

text \<open>A heap where the node 0 has the child 2.\<close>

definition with_child :: "nat heap" where
  "with_child = (unlinked 0)(0 := (unlinked 0 0)\<lparr>children := Some [2]\<rparr>,
                             2 := (unlinked 0 2)\<lparr>parent := Some 0\<rparr>)"

text \<open>
  The nodes A, B, D and E at the addresses 0 to 3, after \<^verbatim>\<open>A.attach(B)\<close> and
  \<^verbatim>\<open>B.attach(D)\<close>: D is a grandchild of A via B, and E stays on its own.
\<close>

definition family :: "string heap" where
  "family =
     snd (Node_attach
       (snd (Node_attach
          (new_Node (new_Node (new_Node (new_Node (unlinked '''') 0 ''A'') 1 ''B'') 2 ''D'') 3 ''E'')
          0 [1]))
       1 [2])"

definition family_world :: "string world" where
  "family_world = \<lparr>heap = family, arrays = (\<lambda>a. []), nextArray = 0\<rparr>"

text \<open>A hierarchy (the object 100) whose \<^verbatim>\<open>identify\<close> is the identity, after
  \<^verbatim>\<open>attachRoot([A])\<close>; then the hierarchy and the world it leaves.\<close>

definition family_attached ::
  "(error option \<times> string world \<times> (string, string) Hierarchy) option" where
  "family_attached =
     (case Hierarchy_new family_world 100 id of (H, w) \<Rightarrow> attachRoot 4 w H [0])"

definition family_H :: "(string, string) Hierarchy" where
  "family_H = (case family_attached of
                 Some (e, w, H) \<Rightarrow> H
               | None \<Rightarrow> fst (Hierarchy_new family_world 100 id))"

definition family_w :: "string world" where
  "family_w = (case family_attached of Some (e, w, H) \<Rightarrow> w | None \<Rightarrow> family_world)"





text \<open>
  The node 0 with the children 1 and 2, the node 1 with the child 3; then the nodes 2
  and 3 are branded by an owner. And the heap that \<^verbatim>\<open>dismantle(false)\<close> of the node 0
  leaves.
\<close>

definition branded_tree :: "nat heap" where
  "branded_tree =
     snd (Node_brand
       (snd (Node_brand
          (snd (Node_attach (snd (Node_attach (unlinked 0) 0 [1, 2])) 1 [3]))
          2 (Some (plain_owner 9))))
       3 (Some (plain_owner 9)))"

definition branded_tree_after :: "nat heap" where
  "branded_tree_after =
     (case Node_dismantle 5 branded_tree 0 False of Some (e, h) \<Rightarrow> h | None \<Rightarrow> branded_tree)"

text \<open>
  The chain of the node 0, its child 1 and the child 2 of that; then the node 1 is
  branded by an owner. And the heap that \<^verbatim>\<open>dismantle(true)\<close> of the node 2 leaves.
\<close>

definition branded_chain :: "nat heap" where
  "branded_chain =
     snd (Node_brand
       (snd (Node_attach (snd (Node_attach (unlinked 0) 0 [1])) 1 [2]))
       1 (Some (plain_owner 9)))"

definition branded_chain_after :: "nat heap" where
  "branded_chain_after =
     (case Node_dismantle 5 branded_chain 2 True of Some (e, h) \<Rightarrow> h | None \<Rightarrow> branded_chain)"

text \<open>
  The graph with a back-edge, root (0) to A (1) to B (2) and back to A; and the signal
  of its breadth-first, cycle-detecting traversal once B was yielded: all three nodes
  are visited and A waits in the frontier again.
\<close>

definition back_edge :: "nat \<Rightarrow> nat list" where
  "back_edge n = (if n = 0 then [1] else if n = 1 then [2] else if n = 2 then [1] else [])"

definition back_edge_last :: "nat GraphSignal" where
  "back_edge_last =
     \<lparr>visited = Some [0, 1, 2], isDepthFirst = False, nodes = [1], depth = 2,
      branchCount = [], depthCount = 0, count = 3, skipped = False\<rparr>"

text \<open>
  Two graphs where a node has several successors: the diamond, root (0) to A (1) and B
  (2), both to C (3); and the diamond with the back-edge from C to the root.
\<close>

definition diamond :: "nat \<Rightarrow> nat list" where
  "diamond n = (if n = 0 then [1, 2] else if n = 1 then [3] else if n = 2 then [3] else [])"

definition back_edge_fork :: "nat \<Rightarrow> nat list" where
  "back_edge_fork n =
     (if n = 0 then [1, 2] else if n = 1 then [3] else if n = 2 then [3]
      else if n = 3 then [0] else [])"

section \<open>Evaluation\<close>

text \<open>The definitions that the simplifier unfolds to run the model on a scenario.\<close>

lemmas evaluation =
  traverseGraph_def GraphSignal_new_def Linear_attach_def tryGetNext.simps
  tryGetNextInternal_def Linear_tryDetach_def GraphSignal_next_def shouldYield_def cleanup_def
  Set_add_def Set_delete_def Node_attach_def Node_detachSelf_def isRoot_def isLeaf_def
  isBranded_def isBrandCompatible_def children_get_def attach_child_def new_Node_def
  unlinked_def Hierarchy_new_def Array_new_def attachRoot_def addNodes_def addNodes_body_def
  Node_brand_def Hierarchy_owner_def Array_push_def Array_write_def Map_get_def Map_has_def
  getNode_def getAncestorIds_def getAncestors_def SequenceSignal_new_def
  SequenceSignal_tryGetNext_def SequenceSignal_next_def SequenceSignal_cleanup_def
  SequenceSignal_shouldYield_def nodesToIds_def nodesToItems_def getDescendants_def Let_def
  eval_nat_numeral

lemmas family_evaluation =
  family_w_def family_H_def family_attached_def family_world_def family_def evaluation


lemmas branded_tree_evaluation =
  branded_tree_def branded_tree_after_def branded_chain_def branded_chain_after_def
  plain_owner_def evaluation

section \<open>Properties of nodes\<close>

lemma every_isBrandCompatible_True:
  "every_isBrandCompatible h cs p = Inr True \<Longrightarrow> c \<in> set cs \<Longrightarrow> isBrandCompatible h c p = Inr True"
  by (induction cs) (auto split: sum.splits if_splits)

text \<open>
  Claim C7. \<^verbatim>\<open>p.attach(cs)\<close> throws when \<open>cs\<close> is empty, when a node of \<open>cs\<close> has a parent,
  and when a node of \<open>cs\<close> is not brand-compatible with \<open>p\<close> (the check answers false, or
  throws itself); and whenever \<^verbatim>\<open>attach\<close> throws, the heap is the one it started from: no
  parent pointer and no child set has changed.
\<close>

theorem Node_attach_checks_before_mutating:
  "((cs = [] \<or> (\<exists>c \<in> set cs. parent (h c) \<noteq> None)
       \<or> (\<exists>c \<in> set cs. isBrandCompatible h c p \<noteq> Inr True))
      \<longrightarrow> (\<exists>e. Node_attach h p cs = (Some e, h)))
   \<and> (\<forall>e h'. Node_attach h p cs = (Some e, h') \<longrightarrow> h' = h)"
proof (intro conjI impI allI)
  assume bad: "cs = [] \<or> (\<exists>c \<in> set cs. parent (h c) \<noteq> None)
    \<or> (\<exists>c \<in> set cs. isBrandCompatible h c p \<noteq> Inr True)"
  show "\<exists>e. Node_attach h p cs = (Some e, h)"
  proof (cases "every_isBrandCompatible h cs p = Inr True")
    case True
    then have "\<forall>c \<in> set cs. isBrandCompatible h c p = Inr True"
      using every_isBrandCompatible_True by blast
    with bad have "cs = [] \<or> \<not> list_all (isRoot h) cs"
      by (auto simp: list_all_iff isRoot_def)
    then show ?thesis by (auto simp: Node_attach_def)
  next
    case False
    then show ?thesis
      by (cases "every_isBrandCompatible h cs p") (auto simp: Node_attach_def)
  qed
next
  fix e h' assume "Node_attach h p cs = (Some e, h')"
  then show "h' = h"
    by (auto simp: Node_attach_def Let_def split: if_splits sum.splits)
qed

text \<open>
  The theorem at each way to fail: no node at all; the node 1 of \<open>parented\<close>, which has
  a parent; the branded node 3 of \<open>one_branded\<close> under the unbranded node 0, where the
  check answers false; the same node in \<open>two_branded\<close>, where the check throws. The heap
  stays as it was each time.
\<close>

theorem Node_attach_checks_before_mutating_witness:
  "Node_attach parented 0 [] = (Some MustProvideChildren, parented)
   \<and> parent (parented 1) \<noteq> None
   \<and> Node_attach parented 0 [1] = (Some MustBeWithoutParent, parented)
   \<and> isBrandCompatible one_branded 3 0 = Inr False
   \<and> Node_attach one_branded 0 [3] = (Some MustHaveCompatibleBrand, one_branded)
   \<and> isBrandCompatible two_branded 3 0 = Inl TypeError
   \<and> Node_attach two_branded 0 [3] = (Some TypeError, two_branded)"
proof -
  have hyp: "parent (parented 1) \<noteq> None" by (simp add: parented_def)
  have c1: "isBrandCompatible one_branded 3 0 = Inr False"
    by (simp add: isBrandCompatible_def one_branded_def unlinked_def)
  have c2: "isBrandCompatible two_branded 3 0 = Inl TypeError"
    by (simp add: isBrandCompatible_def two_branded_def one_branded_def plain_owner_def)
  have "\<exists>e. Node_attach parented 0 [] = (Some e, parented)"
    using Node_attach_checks_before_mutating [of "[]" parented 0] by simp
  moreover have "fst (Node_attach parented 0 []) = Some MustProvideChildren"
    by (simp add: Node_attach_def)
  ultimately have 0: "Node_attach parented 0 [] = (Some MustProvideChildren, parented)" by auto
  have "\<exists>e. Node_attach parented 0 [1] = (Some e, parented)"
    using hyp Node_attach_checks_before_mutating [of "[1]" parented 0] by simp
  moreover have "fst (Node_attach parented 0 [1]) = Some MustBeWithoutParent"
    by (simp add: Node_attach_def isRoot_def parented_def)
  ultimately have 1: "Node_attach parented 0 [1] = (Some MustBeWithoutParent, parented)" by auto
  have "\<exists>e. Node_attach one_branded 0 [3] = (Some e, one_branded)"
    using c1 Node_attach_checks_before_mutating [of "[3]" one_branded 0] by simp
  moreover have "fst (Node_attach one_branded 0 [3]) = Some MustHaveCompatibleBrand"
    by (simp add: Node_attach_def isRoot_def c1) (simp add: one_branded_def unlinked_def)
  ultimately have 2: "Node_attach one_branded 0 [3] = (Some MustHaveCompatibleBrand, one_branded)"
    by auto
  have "\<exists>e. Node_attach two_branded 0 [3] = (Some e, two_branded)"
    using c2 Node_attach_checks_before_mutating [of "[3]" two_branded 0] by simp
  moreover have "fst (Node_attach two_branded 0 [3]) = Some TypeError"
    by (simp add: Node_attach_def isRoot_def c2) (simp add: two_branded_def one_branded_def unlinked_def)
  ultimately have 3: "Node_attach two_branded 0 [3] = (Some TypeError, two_branded)" by auto
  from 0 hyp 1 c1 2 c2 3 show ?thesis by simp
qed

text \<open>
  Claim C8. For unbranded nodes \<open>A\<close> and \<open>B\<close> with \<open>B\<close> a root, \<^verbatim>\<open>A.attach(B)\<close> and then
  \<^verbatim>\<open>B.detachSelf()\<close> both return, and afterwards \<open>B\<close> has no parent and the children of
  \<open>A\<close> are the ones it had, without \<open>B\<close>: exactly the ones it had when \<open>B\<close> was not among
  them. The nodes need not even be distinct.
\<close>

theorem attach_then_detachSelf:
  assumes "brand (h A) = None" and "brand (h B) = None" and "parent (h B) = None"
  shows "\<exists>h1 h2. Node_attach h A [B] = (None, h1) \<and> Node_detachSelf h1 B = (None, h2)
           \<and> parent (h2 B) = None
           \<and> children_get h2 A = removeAll B (children_get h A)
           \<and> (B \<notin> set (children_get h A) \<longrightarrow> children_get h2 A = children_get h A)"
  using assms
  by (auto simp: Node_attach_def Node_detachSelf_def isBrandCompatible_def isRoot_def
      attach_child_def Let_def children_get_def isBranded_def isLeaf_def Set_add_def
      Set_delete_def split: option.splits)

text \<open>The theorem at the nodes 0 and 1 of \<open>with_child\<close>.\<close>

theorem attach_then_detachSelf_witness:
  "\<exists>h1 h2. Node_attach with_child 0 [1] = (None, h1)
      \<and> Node_detachSelf h1 1 = (None, h2)
      \<and> parent (h2 1) = None \<and> children_get h2 0 = [2]"
proof -
  have "brand (with_child 0) = None" "brand (with_child 1) = None" "parent (with_child 1) = None"
    by (simp_all add: unlinked_def with_child_def)
  from attach_then_detachSelf [OF this]
  obtain h1 h2 where "Node_attach with_child 0 [1] = (None, h1)" "Node_detachSelf h1 1 = (None, h2)"
     "parent (h2 1) = None" "children_get h2 0 = removeAll 1 (children_get with_child 0)"
    by blast
  moreover have "removeAll 1 (children_get with_child 0) = [2]"
    by (simp add: children_get_def with_child_def)
  ultimately show ?thesis by metis
qed

text \<open>
  Claim C9. The delegate returned by \<^verbatim>\<open>brand\<close> clears the brand of its node in whatever
  state the node is: after a call the node is unbranded; a second call changes nothing;
  and the delegate of an earlier branding, called after the node was released and branded
  again by another owner \<open>y\<close>, clears the brand \<open>y\<close> too.
\<close>

theorem DeBrand_unconditional:
  "\<not> isBranded (call_DeBrand h (DeBrand n)) n
   \<and> call_DeBrand (call_DeBrand h (DeBrand n)) (DeBrand n) = call_DeBrand h (DeBrand n)
   \<and> (\<forall>x y d1 h1 d2 h2.
        Node_brand h n (Some x) = (Inr d1, h1) \<and>
        Node_brand (call_DeBrand h1 d1) n (Some y) = (Inr d2, h2)
        \<longrightarrow> d1 = DeBrand n \<and> brand (h2 n) = Some y \<and> \<not> isBranded (call_DeBrand h2 d1) n)"
  by (auto simp: isBranded_def Node_brand_def split: option.splits)

text \<open>The theorem at the node 0 of a heap of unbranded nodes: branded by an owner 7,
  released, and branded by an owner 8.\<close>

theorem DeBrand_unconditional_witness:
  "\<exists>d1 h1 d2 h2.
      Node_brand (unlinked (0::nat)) 0 (Some (plain_owner 7)) = (Inr d1, h1)
    \<and> Node_brand (call_DeBrand h1 d1) 0 (Some (plain_owner 8)) = (Inr d2, h2)
    \<and> brand (h2 0) = Some (plain_owner 8)
    \<and> \<not> isBranded (call_DeBrand h2 d1) 0"
proof -
  define h1 where "h1 = (unlinked (0::nat))(0 := (unlinked 0 0)\<lparr>brand := Some (plain_owner 7)\<rparr>)"
  define h2 where "h2 = (call_DeBrand h1 (DeBrand 0))(0 := (call_DeBrand h1 (DeBrand 0) 0)\<lparr>brand := Some (plain_owner 8)\<rparr>)"
  have b1: "Node_brand (unlinked (0::nat)) 0 (Some (plain_owner 7)) = (Inr (DeBrand 0), h1)"
    by (simp add: Node_brand_def unlinked_def h1_def)
  have b2: "Node_brand (call_DeBrand h1 (DeBrand 0)) 0 (Some (plain_owner 8)) = (Inr (DeBrand 0), h2)"
    by (simp add: Node_brand_def h2_def)
  from DeBrand_unconditional [of "unlinked (0::nat)" 0] b1 b2
  have "brand (h2 0) = Some (plain_owner 8) \<and> \<not> isBranded (call_DeBrand h2 (DeBrand 0)) 0"
    by blast
  with b1 b2 show ?thesis by blast
qed

section \<open>Brand compatibility\<close>

text \<open>
  Claim C2. The claim has \<^verbatim>\<open>isBrandCompatible\<close> return true for any two nodes branded with
  the same owner. The code calls the method \<^verbatim>\<open>Equals\<close> of the brand of \<open>a\<close>:
  \<^verbatim>\<open>a.isBrandCompatible(b)\<close> returns true exactly when both nodes are unbranded, or both
  are branded and that method exists and answers true for the brand of \<open>b\<close>; it throws a
  \<open>TypeError\<close> exactly when both are branded and the brand of \<open>a\<close> has no such method,
  whatever the two owners are.
\<close>

theorem isBrandCompatible_outcomes:
  "(isBrandCompatible h a b = Inr True \<longleftrightarrow>
      (brand (h a) = None \<and> brand (h b) = None)
      \<or> (\<exists>x y eq. brand (h a) = Some x \<and> brand (h b) = Some y
            \<and> Equals x = Some eq \<and> eq (oid y)))
   \<and> (isBrandCompatible h a b = Inl TypeError \<longleftrightarrow>
      (\<exists>x y. brand (h a) = Some x \<and> brand (h b) = Some y \<and> Equals x = None))"
  by (auto simp: isBrandCompatible_def split: option.splits)

text \<open>The theorem at the nodes B and D of \<open>family\<close>, both branded by the one hierarchy
  that \<^verbatim>\<open>attachRoot\<close> added them to: the call throws.\<close>

theorem isBrandCompatible_outcomes_witness:
  "family_attached = Some (None, family_w, family_H)
   \<and> brand (heap family_w 1) = Some (Hierarchy_owner family_H)
   \<and> brand (heap family_w 2) = Some (Hierarchy_owner family_H)
   \<and> Equals (Hierarchy_owner family_H) = None
   \<and> isBrandCompatible (heap family_w) 1 2 = Inl TypeError"
proof -
  have b: "brand (heap family_w 1) = Some (Hierarchy_owner family_H)"
    "brand (heap family_w 2) = Some (Hierarchy_owner family_H)"
    by (simp_all add: family_evaluation)
  have e: "Equals (Hierarchy_owner family_H) = None" by (simp add: Hierarchy_owner_def)
  from b e isBrandCompatible_outcomes [of "heap family_w" 1 2]
  have "isBrandCompatible (heap family_w) 1 2 = Inl TypeError" by blast
  moreover have "family_attached = Some (None, family_w, family_H)"
    by (simp add: family_evaluation)
  ultimately show ?thesis using b e by simp
qed

section \<open>The hierarchy\<close>

lemma addNodes_body_brands:
  assumes "addNodes_body (h, H) n = (None, (h', H'))"
  shows "brand (h' n) = Some (Hierarchy_owner H)" and "Hierarchy_owner H' = Hierarchy_owner H"
    and "brand (h m) = Some b \<Longrightarrow> brand (h' m) = Some b"
  using assms
  by (auto simp: addNodes_body_def Node_brand_def Hierarchy_owner_def Let_def
      split: option.splits)

lemma tryGetNext_plain:
  assumes "visited sig = None" and "\<not> isDepthFirst sig"
  shows "(nodes sig = [] \<and> tryGetNext sig = Inr (None, sig))
       \<or> (\<exists>x rest sig1. nodes sig = x # rest \<and> tryGetNext sig = Inr (Some x, sig1)
            \<and> nodes sig1 = rest \<and> visited sig1 = None \<and> \<not> isDepthFirst sig1 \<and> \<not> skipped sig1)"
  using assms
  by (cases "nodes sig")
     (auto simp: tryGetNext.simps [of sig] tryGetNextInternal_def Linear_tryDetach_def Let_def)

lemma plain_round:
  assumes "visited sig1 = None" and "\<not> isDepthFirst sig1"
  shows "visited (cleanup (GraphSignal_next sig1 ns)) = None"
    and "\<not> isDepthFirst (cleanup (GraphSignal_next sig1 ns))"
    and "nodes (cleanup (GraphSignal_next sig1 ns)) = nodes sig1 @ ns"
  using assms
  by (auto simp: cleanup_def GraphSignal_next_def Linear_attach_def Let_def)

lemma addNodes_loop_brands:
  "for_traverseGraph fuel (\<lambda>s. children_get (fst s)) addNodes_body sig (h, H) = Some (None, (h', H'))
   \<Longrightarrow> visited sig = None \<Longrightarrow> \<not> isDepthFirst sig
   \<Longrightarrow> n \<in> set (nodes sig) \<or> brand (h n) = Some (Hierarchy_owner H)
   \<Longrightarrow> brand (h' n) = Some (Hierarchy_owner H) \<and> Hierarchy_owner H' = Hierarchy_owner H"
proof (induction fuel arbitrary: sig h H)
  case 0
  then show ?case by simp
next
  case (Suc fuel)
  from tryGetNext_plain [OF Suc.prems(2,3)]
  show ?case
  proof (elim disjE exE conjE)
    assume "nodes sig = []" "tryGetNext sig = Inr (None, sig)"
    with Suc.prems(1,4) show ?thesis by simp
  next
    fix x rest sig1
    assume a: "nodes sig = x # rest" "tryGetNext sig = Inr (Some x, sig1)" "nodes sig1 = rest"
      "visited sig1 = None" "\<not> isDepthFirst sig1" "\<not> skipped sig1"
    let ?sig2 = "GraphSignal_next sig1 (children_get h x)"
    from a(6) have y: "shouldYield ?sig2"
      by (simp add: shouldYield_def GraphSignal_next_def split: prod.split)
    obtain eo h1 H1 where b: "addNodes_body (h, H) x = (eo, (h1, H1))"
      by (cases "addNodes_body (h, H) x") auto
    from Suc.prems(1) a(2) y b have eo: "eo = None"
      and rec: "for_traverseGraph fuel (\<lambda>s. children_get (fst s)) addNodes_body (cleanup ?sig2) (h1, H1)
          = Some (None, (h', H'))"
      by (auto simp: Let_def split: option.splits)
    from b eo have b': "addNodes_body (h, H) x = (None, (h1, H1))" by simp
    note bb = addNodes_body_brands [OF b']
    from Suc.prems(4) a(1,3) bb(1) bb(3) [of n]
    have "n \<in> set (nodes (cleanup ?sig2)) \<or> brand (h1 n) = Some (Hierarchy_owner H1)"
      by (auto simp: plain_round [OF a(4,5)] bb(2))
    from Suc.IH [OF rec plain_round(1,2) [OF a(4,5)] this] bb(2)
    show ?thesis by simp
  qed
qed

lemma Hierarchy_attach_never_returns:
  assumes "Hierarchy_attach fuel w H parentId ns = Some (e, w', H')"
  shows "e \<noteq> None"
proof (cases "Map_has (nodes_by_id H) parentId")
  case True
  with assms show ?thesis by (auto simp: Hierarchy_attach_def)
next
  case False
  show ?thesis
  proof (cases "addNodes fuel (heap w) H ns")
    case None
    with False assms show ?thesis by (simp add: Hierarchy_attach_def)
  next
    case (Some r)
    obtain eo h1 H1 where r: "r = (eo, (h1, H1))" by (cases r) auto
    show ?thesis
    proof (cases eo)
      case (Some e')
      with False assms \<open>addNodes fuel (heap w) H ns = Some r\<close> r show ?thesis
        by (auto simp: Hierarchy_attach_def)
    next
      case None
      note ok = \<open>addNodes fuel (heap w) H ns = Some r\<close> [unfolded r None]
      show ?thesis
      proof (cases "Map_get (nodes_by_id H1) parentId")
        case None
        with False assms ok show ?thesis by (auto simp: Hierarchy_attach_def)
      next
        case (Some p)
        have "fst (Node_attach h1 p ns) \<noteq> None"
        proof (cases ns)
          case Nil
          then show ?thesis by (simp add: Node_attach_def)
        next
          case (Cons n ns')
          from ok have "for_traverseGraph fuel (\<lambda>s. children_get (fst s)) addNodes_body
              (GraphSignal_new ns False None) (heap w, H) = Some (None, (h1, H1))"
            by (simp add: addNodes_def)
          moreover have "visited (GraphSignal_new ns False None) = None"
            "\<not> isDepthFirst (GraphSignal_new ns False None)"
            "n \<in> set (nodes (GraphSignal_new ns False None))"
            using Cons by (simp_all add: GraphSignal_new_def Linear_attach_def)
          ultimately have "brand (h1 n) = Some (Hierarchy_owner H)"
            using addNodes_loop_brands [of fuel _ "heap w" H h1 H1 n] by blast
          then have "isBrandCompatible h1 n p \<noteq> Inr True"
            by (auto simp: isBrandCompatible_def Hierarchy_owner_def split: option.splits)
          with Cons show ?thesis
            by (auto simp: Node_attach_def Let_def split: sum.splits if_splits)
        qed
        with False assms ok Some show ?thesis
          by (auto simp: Hierarchy_attach_def split: prod.splits)
      qed
    qed
  qed
qed

text \<open>
  Claim C1. The claim has \<^verbatim>\<open>Hierarchy.attach\<close> fail exactly when \<open>parentId\<close> is not indexed.
  The guard of the code is \<^verbatim>\<open>if (this.#nodes.has(parentId)) throw\<close>: whenever \<open>parentId\<close>
  is the id of an indexed node, \<^verbatim>\<open>attach\<close> throws "The 'parentId' must be a hierarchy
  member." and changes nothing. And no call of \<^verbatim>\<open>attach\<close> returns normally: past the guard
  it finds no parent, or a parent whose \<^verbatim>\<open>attach\<close> rejects the children it has just
  branded.
\<close>

theorem Hierarchy_attach_throws_for_member:
  "(Map_has (nodes_by_id H) parentId \<longrightarrow>
      Hierarchy_attach fuel w H parentId ns = Some (Some ParentIdMustBeMember, w, H))
   \<and> (\<forall>e w' H'. Hierarchy_attach fuel w H parentId ns = Some (e, w', H') \<longrightarrow> e \<noteq> None)"
proof (intro conjI impI allI)
  assume "Map_has (nodes_by_id H) parentId"
  then show "Hierarchy_attach fuel w H parentId ns = Some (Some ParentIdMustBeMember, w, H)"
    by (simp add: Hierarchy_attach_def)
next
  fix e w' H' assume "Hierarchy_attach fuel w H parentId ns = Some (e, w', H')"
  then show "e \<noteq> None" by (rule Hierarchy_attach_never_returns)
qed

text \<open>
  The theorem at the hierarchy of \<open>family\<close>, the id of B and the unbranded root E. With
  an id that is not indexed, the same call brands and indexes E and then fails on the
  parent it does not find.
\<close>

theorem Hierarchy_attach_throws_for_member_witness:
  "family_attached = Some (None, family_w, family_H)
   \<and> Map_has (nodes_by_id family_H) ''B''
   \<and> isRoot (heap family_w) 3 \<and> \<not> isBranded (heap family_w) 3
   \<and> Hierarchy_attach 4 family_w family_H ''B'' [3]
       = Some (Some ParentIdMustBeMember, family_w, family_H)
   \<and> \<not> Map_has (nodes_by_id family_H) ''Z''
   \<and> map_option fst (Hierarchy_attach 4 family_w family_H ''Z'' [3]) = Some (Some TypeError)"
proof -
  have m: "Map_has (nodes_by_id family_H) ''B''" by (simp add: family_evaluation)
  with Hierarchy_attach_throws_for_member [of family_H "''B''" 4 family_w "[3]"]
  have "Hierarchy_attach 4 family_w family_H ''B'' [3]
      = Some (Some ParentIdMustBeMember, family_w, family_H)" by blast
  moreover have "family_attached = Some (None, family_w, family_H)"
    by (simp add: family_evaluation)
  moreover have "isRoot (heap family_w) 3 \<and> \<not> isBranded (heap family_w) 3"
    by (simp add: family_evaluation)
  moreover have "\<not> Map_has (nodes_by_id family_H) ''Z''"
    by (simp add: family_evaluation)
  moreover have "map_option fst (Hierarchy_attach 4 family_w family_H ''Z'' [3]) = Some (Some TypeError)"
    by (simp add: Hierarchy_attach_def family_evaluation)
  ultimately show ?thesis using m by simp
qed




text \<open>The fallback of \<^verbatim>\<open>nodesToIds\<close>: without \<^verbatim>\<open>identify\<close>, and where \<^verbatim>\<open>identify\<close> answers
  \<^verbatim>\<open>undefined\<close> or \<^verbatim>\<open>null\<close>, the id is the item itself.\<close>

lemma nodesToIds_no_identify:
  "nodesToIds h ns None nullish asId = map (\<lambda>node. asId (item (h node))) ns"
  by (simp add: nodesToIds_def)

lemma nodesToIds_nullish:
  "nullish (f (item (h n))) \<Longrightarrow> nodesToIds h [n] (Some f) nullish asId = [asId (item (h n))]"
  by (simp add: nodesToIds_def)

lemma nodesToIds_identified:
  "\<not> nullish (f (item (h n))) \<Longrightarrow> nodesToIds h [n] (Some f) nullish asId = [f (item (h n))]"
  by (simp add: nodesToIds_def)


section \<open>The signal between two rounds\<close>

lemma skipped_GraphSignal_next: "skipped (GraphSignal_next sig ns) = skipped sig"
  by (simp add: GraphSignal_next_def split: prod.split)

lemma sum_list_dropWhile_zero: "sum_list (dropWhile (\<lambda>c. c = 0) xs) = sum_list (xs :: int list)"
  by (induction xs) auto

text \<open>
  One call of \<^verbatim>\<open>tryGetNext\<close> with cycle detection, when \<open>acc\<close> is the visited set: either
  the whole frontier was visited before and the call reports the end; or the frontier is
  \<open>pre @ n # rest\<close>, the nodes of \<open>pre\<close> were visited before and are dropped, and \<open>n\<close>, never
  visited, is returned and marked. No call fails.
\<close>

lemma tryGetNext_detecting:
  assumes "visited sig = Some acc" and "counted sig"
  shows "(\<exists>sig'. tryGetNext sig = Inr (None, sig') \<and> set (nodes sig) \<subseteq> set acc)
       \<or> (\<exists>n sig1 pre. tryGetNext sig = Inr (Some n, sig1) \<and> n \<notin> set acc
             \<and> nodes sig = pre @ n # nodes sig1 \<and> set pre \<subseteq> set acc
             \<and> visited sig1 = Some (acc @ [n])
             \<and> \<not> skipped sig1 \<and> isDepthFirst sig1 = isDepthFirst sig \<and> counted sig1)"
  using assms
proof (induction "nodes sig" arbitrary: sig)
  case Nil
  then have "tryGetNext sig = Inr (None, sig)"
    by (simp add: tryGetNext.simps tryGetNextInternal_def Linear_tryDetach_def)
  with Nil show ?case by auto
next
  case (Cons x rest)
  from Cons.hyps(2) have ns: "nodes sig = x # rest" by simp
  obtain sig1 where i: "tryGetNextInternal sig = Inr (Some x, sig1)"
    and n1: "nodes sig1 = rest" and v1: "visited sig1 = Some acc" and c1: "counted sig1"
    and s1: "\<not> skipped sig1" and d1: "isDepthFirst sig1 = isDepthFirst sig"
  proof (cases "isDepthFirst sig")
    case True
    with Cons.prems(2) ns have "sum_list (branchCount sig) = 1 + int (length rest)"
      by (simp add: counted_def)
    then obtain c cs where bc: "branchCount sig = c # cs" by (cases "branchCount sig") auto
    with True Cons.prems ns that show ?thesis
      by (simp add: tryGetNextInternal_def Linear_tryDetach_def counted_def)
  next
    case False
    with Cons.prems ns that show ?thesis
      by (cases "depthCount sig = 0")
         (simp_all add: tryGetNextInternal_def Linear_tryDetach_def counted_def)
  qed
  show ?case
  proof (cases "x \<in> set acc")
    case False
    with i Cons.prems(1) have "tryGetNext sig = Inr (Some x, sig1\<lparr>visited := Some (acc @ [x])\<rparr>)"
      by (simp add: tryGetNext.simps [of sig] Set_add_def)
    moreover have "nodes sig = [] @ x # nodes (sig1\<lparr>visited := Some (acc @ [x])\<rparr>)"
      using ns n1 by simp
    ultimately show ?thesis using False s1 d1 c1
      by (intro disjI2 exI [of _ x] exI [of _ "sig1\<lparr>visited := Some (acc @ [x])\<rparr>"] exI [of _ "[]"])
         (simp add: counted_def)
  next
    case True
    with i Cons.prems(1) have t: "tryGetNext sig = tryGetNext sig1"
      by (simp add: tryGetNext.simps [of sig])
    from n1 Cons.hyps(2) have "rest = nodes sig1" by simp
    from Cons.hyps(1) [OF this v1 c1]
    show ?thesis
    proof (elim disjE exE conjE)
      fix sig' assume "tryGetNext sig1 = Inr (None, sig')" "set (nodes sig1) \<subseteq> set acc"
      with t True ns n1 show ?thesis by auto
    next
      fix n sig2 pre
      assume a: "tryGetNext sig1 = Inr (Some n, sig2)" "n \<notin> set acc"
        "nodes sig1 = pre @ n # nodes sig2" "set pre \<subseteq> set acc"
        "visited sig2 = Some (acc @ [n])" "\<not> skipped sig2"
        "isDepthFirst sig2 = isDepthFirst sig1" "counted sig2"
      from a(3) ns n1 have "nodes sig = (x # pre) @ n # nodes sig2" by simp
      moreover from a(4) True have "set (x # pre) \<subseteq> set acc" by simp
      ultimately show ?thesis using a t d1
        by (intro disjI2 exI [of _ n] exI [of _ sig2] exI [of _ "x # pre"]) simp
    qed
  qed
qed

lemma counted_round:
  assumes "counted sig1"
  shows "counted (cleanup (GraphSignal_next sig1 ns))"
  using assms
  by (auto simp: counted_def cleanup_def GraphSignal_next_def Linear_attach_def Let_def
      sum_list_dropWhile_zero)

lemma nodes_round:
  "set (nodes (cleanup (GraphSignal_next sig1 ns))) = set (nodes sig1) \<union> set ns"
  by (auto simp: cleanup_def GraphSignal_next_def Linear_attach_def Let_def)

lemma visited_round:
  "visited (cleanup (GraphSignal_next sig1 ns)) = visited sig1"
  by (auto simp: cleanup_def GraphSignal_next_def Linear_attach_def Let_def)

text \<open>One call of \<^verbatim>\<open>tryGetNext\<close> without cycle detection hands out the head of the
  frontier, whatever the type of the traversal; it never fails.\<close>

lemma tryGetNext_plain_any:
  assumes "visited sig = None" and "counted sig"
  shows "(nodes sig = [] \<and> tryGetNext sig = Inr (None, sig))
       \<or> (\<exists>x rest sig1. nodes sig = x # rest \<and> tryGetNext sig = Inr (Some x, sig1)
            \<and> nodes sig1 = rest \<and> visited sig1 = None \<and> isDepthFirst sig1 = isDepthFirst sig
            \<and> \<not> skipped sig1 \<and> counted sig1)"
proof (cases "nodes sig")
  case Nil
  with assms show ?thesis
    by (simp add: tryGetNext.simps [of sig] tryGetNextInternal_def Linear_tryDetach_def)
next
  case (Cons x rest)
  show ?thesis
  proof (cases "isDepthFirst sig")
    case True
    with assms(2) Cons have "sum_list (branchCount sig) = 1 + int (length rest)"
      by (simp add: counted_def)
    then obtain c cs where bc: "branchCount sig = c # cs" by (cases "branchCount sig") auto
    with True assms Cons show ?thesis
      by (simp add: tryGetNext.simps [of sig] tryGetNextInternal_def Linear_tryDetach_def counted_def)
  next
    case False
    with assms Cons show ?thesis
      by (cases "depthCount sig = 0")
         (simp_all add: tryGetNext.simps [of sig] tryGetNextInternal_def Linear_tryDetach_def counted_def)
  qed
qed

lemma nodes_round_exact:
  "nodes (cleanup (GraphSignal_next sig1 ns)) =
     (if isDepthFirst sig1 then rev ns @ nodes sig1 else nodes sig1 @ ns)"
  by (auto simp: cleanup_def GraphSignal_next_def Linear_attach_def Let_def)

lemma isDepthFirst_round:
  "isDepthFirst (cleanup (GraphSignal_next sig1 ns)) = isDepthFirst sig1"
  by (auto simp: cleanup_def GraphSignal_next_def Linear_attach_def Let_def)

lemma counted_new: "counted (GraphSignal_new rs detectCycles type)"
  by (simp add: counted_def GraphSignal_new_def Linear_attach_def Let_def)

section \<open>The order of the spec\<close>

text \<open>
  Facts about \<open>visit_order\<close>, \<open>first_visits\<close>, \<open>level\<close> and \<open>branch\<close> alone. More fuel does
  not change a result; without discarding, the set \<open>seen\<close> plays no part, and with it only
  as a set.
\<close>

lemma visit_order_seen:
  "set seen = set seen' \<Longrightarrow>
     visit_order detect df nxt k frontier seen = visit_order detect df nxt k frontier seen'"
proof (induction detect df nxt k frontier seen arbitrary: seen' rule: visit_order.induct)
  case (3 detect df nxt k x rest seen)
  show ?case
  proof (cases "detect \<and> x \<in> set seen")
    case True
    with "3.prems" "3.IH"(1) [of seen'] show ?thesis by simp
  next
    case False
    have "set (x # seen) = set (x # seen')" using "3.prems" by simp
    with False "3.prems" "3.IH"(2) [of "x # seen'"] show ?thesis by auto
  qed
qed simp_all

lemma visit_order_discard:
  "set pre \<subseteq> set seen \<Longrightarrow>
     visit_order True df nxt (Suc k) (pre @ frontier) seen = visit_order True df nxt (Suc k) frontier seen"
  by (induction pre) auto

lemma visit_order_more_fuel:
  "visit_order detect df nxt k frontier seen = Some r \<Longrightarrow>
     visit_order detect df nxt (k + j) frontier seen = Some r"
proof (induction detect df nxt k frontier seen arbitrary: r rule: visit_order.induct)
  case (3 detect df nxt k x rest seen)
  show ?case
  proof (cases "detect \<and> x \<in> set seen")
    case True
    with "3.prems" "3.IH"(1) show ?thesis by simp
  next
    case False
    with "3.prems" obtain r' where r': "r = x # r'"
      "visit_order detect df nxt k (if df then rev (nxt x) @ rest else rest @ nxt x) (x # seen) = Some r'"
      by auto
    from "3.IH"(2) [OF False r'(2)] False r'(1) show ?thesis by auto
  qed
qed simp_all

lemma visit_order_le:
  "visit_order detect df nxt k frontier seen = Some r \<Longrightarrow> k \<le> k' \<Longrightarrow>
     visit_order detect df nxt k' frontier seen = Some r"
  using visit_order_more_fuel [of detect df nxt k frontier seen r "k' - k"] by simp

lemma visit_order_unique:
  assumes "visit_order detect df nxt k frontier seen = Some r"
    and "visit_order detect df nxt k' frontier seen = Some r'"
  shows "r = r'"
  using visit_order_more_fuel [OF assms(1), of k'] visit_order_more_fuel [OF assms(2), of k]
  by (simp add: add.commute)

lemma visit_order_plain_seen:
  "visit_order False df nxt k frontier seen = visit_order False df nxt k frontier seen'"
proof (induction k arbitrary: frontier seen seen')
  case 0
  show ?case by simp
next
  case (Suc k)
  show ?case
  proof (cases frontier)
    case Nil
    then show ?thesis by simp
  next
    case (Cons x rest)
    with Suc [of _ "x # seen" "x # seen'"] show ?thesis by simp
  qed
qed

lemma visit_order_Some_fuel: "visit_order detect df nxt k frontier seen = Some r \<Longrightarrow> 0 < k"
  by (cases k) simp_all



lemma depth_first_split:
  "visit_order False True nxt k (A @ B) seen = Some R \<Longrightarrow>
     \<exists>ka kb RA RB. visit_order False True nxt ka A seen = Some RA
        \<and> visit_order False True nxt kb B seen = Some RB \<and> R = RA @ RB \<and> ka \<le> k \<and> kb \<le> k"
proof (induction k arbitrary: A B seen R)
  case 0
  then show ?case by simp
next
  case (Suc j)
  show ?case
  proof (cases A)
    case Nil
    with Suc.prems show ?thesis
      by (intro exI [of _ "Suc 0"] exI [of _ "Suc j"] exI [of _ "[]"] exI [of _ R]) simp
  next
    case (Cons a A')
    with Suc.prems obtain R1 where R1: "R = a # R1"
      "visit_order False True nxt j ((rev (nxt a) @ A') @ B) (a # seen) = Some R1" by auto
    from Suc.IH [OF R1(2)] obtain ka kb RA RB where
      s: "visit_order False True nxt ka (rev (nxt a) @ A') (a # seen) = Some RA"
      "visit_order False True nxt kb B (a # seen) = Some RB" "R1 = RA @ RB" "ka \<le> j" "kb \<le> j"
      by blast
    from s(1) Cons have "visit_order False True nxt (Suc ka) A seen = Some (a # RA)" by simp
    moreover from s(2) have "visit_order False True nxt kb B seen = Some RB"
      using visit_order_plain_seen [of True nxt kb B "a # seen" seen] by simp
    ultimately show ?thesis using s(3,4,5) R1(1)
      by (intro exI [of _ "Suc ka"] exI [of _ kb] exI [of _ "a # RA"] exI [of _ RB]) simp
  qed
qed

lemma first_visits_seen:
  "set seen = set seen' \<Longrightarrow> first_visits seen xs = first_visits seen' xs"
proof (induction xs arbitrary: seen seen')
  case Nil
  show ?case by simp
next
  case (Cons x xs)
  have "set (x # seen) = set (x # seen')" using Cons.prems by simp
  from Cons.IH [OF this] Cons.IH [OF Cons.prems] Cons.prems show ?case by simp
qed

lemma set_first_visits: "set (first_visits seen xs) = set xs - set seen"
  by (induction xs arbitrary: seen) auto

lemma distinct_first_visits: "distinct (first_visits seen xs)"
  by (induction xs arbitrary: seen) (auto simp: set_first_visits)

lemma first_visits_subset: "set xs \<subseteq> set seen \<Longrightarrow> first_visits seen xs = []"
  by (induction xs) auto

lemma first_visits_append:
  "first_visits seen (xs @ ys) = first_visits seen xs @ first_visits (xs @ seen) ys"
proof (induction xs arbitrary: seen)
  case Nil
  show ?case by simp
next
  case (Cons x xs)
  show ?case
  proof (cases "x \<in> set seen")
    case True
    then have "set ((x # xs) @ seen) = set (xs @ seen)" by auto
    from first_visits_seen [OF this] True Cons [of seen] show ?thesis by simp
  next
    case False
    have "set ((x # xs) @ seen) = set (xs @ x # seen)" by auto
    from first_visits_seen [OF this] False Cons [of "x # seen"] show ?thesis by simp
  qed
qed

lemma first_visits_Cons_split:
  "first_visits seen q = x # r \<Longrightarrow>
     \<exists>pre rest. q = pre @ x # rest \<and> set pre \<subseteq> set seen \<and> x \<notin> set seen
        \<and> r = first_visits (x # seen) rest"
proof (induction q)
  case Nil
  then show ?case by simp
next
  case (Cons a q)
  show ?case
  proof (cases "a \<in> set seen")
    case True
    with Cons.prems have "first_visits seen q = x # r" by simp
    from Cons.IH [OF this] obtain pre rest where
      "q = pre @ x # rest" "set pre \<subseteq> set seen" "x \<notin> set seen" "r = first_visits (x # seen) rest"
      by blast
    with True have "a # q = (a # pre) @ x # rest \<and> set (a # pre) \<subseteq> set seen \<and> x \<notin> set seen
        \<and> r = first_visits (x # seen) rest" by simp
    then show ?thesis by blast
  next
    case False
    with Cons.prems have "a # q = [] @ x # q \<and> set [] \<subseteq> set seen \<and> x \<notin> set seen
        \<and> r = first_visits (x # seen) q" by auto
    then show ?thesis by blast
  qed
qed

lemma first_visits_Nil: "first_visits seen q = [] \<Longrightarrow> set q \<subseteq> set seen"
  using set_first_visits [of seen q] by auto

text \<open>Breadth-first, when the plain traversal ends: the detecting traversal yields what
  the plain one yields, the later visits of a node dropped. The two frontiers hold the
  same nodes to visit first, in the same order.\<close>

lemma breadth_first_first_visits:
  "visit_order False False nxt k Qp sp = Some P \<Longrightarrow>
   first_visits V Qp = first_visits V Qd \<Longrightarrow>
   \<forall>v \<in> set V. set (nxt v) \<subseteq> set V \<union> set Qp \<Longrightarrow>
   \<exists>k'. visit_order True False nxt k' Qd V = Some (first_visits V P)"
proof (induction k arbitrary: Qp Qd V P sp)
  case 0
  then show ?case by simp
next
  case (Suc j)
  show ?case
  proof (cases Qp)
    case Nil
    with Suc.prems(1) have P: "P = []" by simp
    from Nil Suc.prems(2) have "set Qd \<subseteq> set V" using first_visits_Nil [of V Qd] by simp
    then have "visit_order True False nxt (Suc 0) (Qd @ []) V = Some []"
      by (subst visit_order_discard) simp_all
    with P show ?thesis by (intro exI [of _ "Suc 0"]) simp
  next
    case (Cons x restp)
    with Suc.prems(1) obtain P' where P': "P = x # P'"
      "visit_order False False nxt j (restp @ nxt x) (x # sp) = Some P'" by auto
    show ?thesis
    proof (cases "x \<in> set V")
      case True
      with Suc.prems(3) Cons have "set (nxt x) \<subseteq> set (restp @ V)" by auto
      then have "first_visits V (restp @ nxt x) = first_visits V restp"
        by (simp add: first_visits_append first_visits_subset)
      with True Cons Suc.prems(2) have eq: "first_visits V (restp @ nxt x) = first_visits V Qd"
        by simp
      from Suc.prems(3) Cons True
      have cl: "\<forall>v \<in> set V. set (nxt v) \<subseteq> set V \<union> set (restp @ nxt x)" by auto
      from Suc.IH [OF P'(2) eq cl] True P'(1) show ?thesis by simp
    next
      case False
      with Cons Suc.prems(2) have "first_visits V Qd = x # first_visits (x # V) restp" by simp
      from first_visits_Cons_split [OF this] obtain pre restd where
        d: "Qd = pre @ x # restd" "set pre \<subseteq> set V"
        "first_visits (x # V) restp = first_visits (x # V) restd" by blast
      from d(3) have "set restp - set (x # V) = set restd - set (x # V)"
        using set_first_visits [of "x # V" restp] set_first_visits [of "x # V" restd] by simp
      then have "set (restp @ x # V) = set (restd @ x # V)" by auto
      then have "first_visits (restp @ x # V) (nxt x) = first_visits (restd @ x # V) (nxt x)"
        by (rule first_visits_seen)
      with d(3) have eq: "first_visits (x # V) (restp @ nxt x) = first_visits (x # V) (restd @ nxt x)"
        by (simp add: first_visits_append)
      from Suc.prems(3) Cons
      have cl: "\<forall>v \<in> set (x # V). set (nxt v) \<subseteq> set (x # V) \<union> set (restp @ nxt x)" by auto
      from Suc.IH [OF P'(2) eq cl] obtain k' where
        k': "visit_order True False nxt k' (restd @ nxt x) (x # V) = Some (first_visits (x # V) P')"
        by blast
      have "visit_order True False nxt (Suc k') Qd V = visit_order True False nxt (Suc k') (x # restd) V"
        unfolding d(1) using d(2) by (rule visit_order_discard)
      with k' False P'(1) show ?thesis by (intro exI [of _ "Suc k'"]) simp
    qed
  qed
qed

lemma visit_order_plain_frontier:
  "visit_order False df nxt k F seen = Some R \<Longrightarrow> set F \<subseteq> set R"
proof (induction k arbitrary: F seen R)
  case 0
  then show ?case by simp
next
  case (Suc k)
  show ?case
  proof (cases F)
    case Nil
    then show ?thesis by simp
  next
    case (Cons x rest)
    with Suc.prems obtain R' where R': "R = x # R'"
      "visit_order False df nxt k (if df then rev (nxt x) @ rest else rest @ nxt x) (x # seen) = Some R'"
      by auto
    from Suc.IH [OF R'(2)] R'(1) Cons show ?thesis by (auto split: if_splits)
  qed
qed

lemma visit_order_closed:
  assumes cl: "\<forall>v \<in> S. set (nxt v) \<subseteq> S"
  shows "set F \<subseteq> S \<Longrightarrow> visit_order detect df nxt k F seen = Some R \<Longrightarrow> set R \<subseteq> S"
proof (induction k arbitrary: F seen R)
  case 0
  then show ?case by simp
next
  case (Suc j)
  from Suc.prems show ?case
  proof (induction F)
    case Nil
    then show ?case by simp
  next
    case (Cons x rest)
    show ?case
    proof (cases "detect \<and> x \<in> set seen")
      case True
      with Cons.prems have "visit_order detect df nxt (Suc j) rest seen = Some R" "set rest \<subseteq> S"
        by simp_all
      from Cons.IH [OF this(2) this(1)] show ?thesis .
    next
      case False
      with Cons.prems(2) obtain R' where R': "R = x # R'"
        "visit_order detect df nxt j (if df then rev (nxt x) @ rest else rest @ nxt x) (x # seen) = Some R'"
        by auto
      from cl Cons.prems(1) have "set (if df then rev (nxt x) @ rest else rest @ nxt x) \<subseteq> S"
        by auto
      from Suc.IH [OF this R'(2)] R'(1) Cons.prems(1) show ?thesis by simp
    qed
  qed
qed

lemma depth_first_join:
  "visit_order True True nxt ka A V = Some RA \<Longrightarrow>
   visit_order True True nxt kb B (rev RA @ V) = Some RB \<Longrightarrow>
   visit_order True True nxt (ka + kb) (A @ B) V = Some (RA @ RB)"
proof (induction ka arbitrary: A V RA)
  case 0
  then show ?case by simp
next
  case (Suc j)
  from Suc.prems show ?case
  proof (induction A arbitrary: RA)
    case Nil
    then have "RA = []" by simp
    with Nil(2) visit_order_le [of True True nxt kb B V RB "Suc j + kb"] show ?case by simp
  next
    case (Cons a A)
    show ?case
    proof (cases "a \<in> set V")
      case True
      with Cons.prems(1) have "visit_order True True nxt (Suc j) A V = Some RA" by simp
      from Cons.IH [OF this Cons.prems(2)] True show ?thesis by simp
    next
      case False
      with Cons.prems(1) obtain R1 where R1: "RA = a # R1"
        "visit_order True True nxt j (rev (nxt a) @ A) (a # V) = Some R1" by auto
      from Cons.prems(2) R1(1) have "visit_order True True nxt kb B (rev R1 @ a # V) = Some RB"
        by simp
      from Suc.IH [OF R1(2) this] False R1(1) show ?thesis by simp
    qed
  qed
qed

lemma depth_first_branch_length:
  "visit_order False True nxt k A seen = Some RA \<Longrightarrow> y \<in> set RA \<Longrightarrow>
     \<exists>k' Ry. visit_order False True nxt k' [y] seen = Some Ry \<and> length Ry \<le> length RA"
proof (induction k arbitrary: A seen RA)
  case 0
  then show ?case by simp
next
  case (Suc j)
  show ?case
  proof (cases A)
    case Nil
    with Suc.prems show ?thesis by simp
  next
    case (Cons a A')
    with Suc.prems(1) obtain R1 where R1: "RA = a # R1"
      "visit_order False True nxt j (rev (nxt a) @ A') (a # seen) = Some R1" by auto
    show ?thesis
    proof (cases "y \<in> set R1")
      case True
      from Suc.IH [OF R1(2) True] obtain k' Ry where
        "visit_order False True nxt k' [y] (a # seen) = Some Ry" "length Ry \<le> length R1" by blast
      with R1(1) visit_order_plain_seen [of True nxt k' "[y]" "a # seen" seen] show ?thesis
        by (intro exI [of _ k'] exI [of _ Ry]) simp
    next
      case False
      with Suc.prems(2) R1(1) have ya: "y = a" by simp
      from depth_first_split [OF R1(2)] obtain ka kb Ra Rb where
        s: "visit_order False True nxt ka (rev (nxt a)) (a # seen) = Some Ra" "R1 = Ra @ Rb" by blast
      from s(1) have "visit_order False True nxt (Suc ka) [a] seen = Some (a # Ra)" by simp
      with ya s(2) R1(1) show ?thesis
        by (intro exI [of _ "Suc ka"] exI [of _ "a # Ra"]) simp
    qed
  qed
qed

lemma depth_first_acyclic:
  assumes "visit_order False True nxt ka (rev (nxt x)) seen = Some RA"
  shows "x \<notin> set RA"
proof
  assume "x \<in> set RA"
  from depth_first_branch_length [OF assms this] obtain k' Rx where
    r: "visit_order False True nxt k' [x] seen = Some Rx" "length Rx \<le> length RA" by blast
  from assms have "visit_order False True nxt (Suc ka) [x] seen = Some (x # RA)"
    using visit_order_plain_seen [of True nxt ka "rev (nxt x)" seen "x # seen"] by simp
  from visit_order_unique [OF r(1) this] r(2) show False by simp
qed

lemma first_visits_fresh:
  "x \<notin> set xs \<Longrightarrow> first_visits (x # V) xs = first_visits V xs"
proof (induction xs arbitrary: V)
  case Nil
  then show ?case by simp
next
  case (Cons a xs)
  then have ax: "a \<noteq> x" "x \<notin> set xs" by auto
  have "set (a # x # V) = set (x # a # V)" by auto
  then have "first_visits (a # x # V) xs = first_visits (x # a # V) xs" by (rule first_visits_seen)
  with Cons.IH [OF ax(2)] ax(1) show ?case by simp
qed

lemma depth_first_first_visits:
  "visit_order False True nxt k F sp = Some R \<Longrightarrow>
   \<forall>v \<in> set V. set (nxt v) \<subseteq> set V \<Longrightarrow>
   set X \<inter> set R = {} \<Longrightarrow>
   \<exists>k'. visit_order True True nxt k' F (X @ V) = Some (first_visits V R)
      \<and> (\<forall>v \<in> set V \<union> set R. set (nxt v) \<subseteq> set V \<union> set R)"
proof (induction k arbitrary: F V X R sp rule: less_induct)
  case (less k)
  from less.prems(1) obtain j where k: "k = Suc j" by (cases k) simp_all
  show ?case
  proof (cases F)
    case Nil
    with less.prems(1) k have "R = []" by simp
    with Nil less.prems(2) show ?thesis by (intro exI [of _ "Suc 0"]) simp
  next
    case (Cons x rest)
    with less.prems(1) k obtain R' where R': "R = x # R'"
      "visit_order False True nxt j (rev (nxt x) @ rest) (x # sp) = Some R'" by auto
    from depth_first_split [OF R'(2)] obtain ka kb RA RB where
      s: "visit_order False True nxt ka (rev (nxt x)) (x # sp) = Some RA"
      "visit_order False True nxt kb rest (x # sp) = Some RB" "R' = RA @ RB" "ka \<le> j" "kb \<le> j"
      by blast
    from s(4,5) k have lt: "ka < k" "kb < k" by simp_all
    from less.prems(3) R'(1) s(3) have X: "x \<notin> set X" "set X \<inter> set RA = {}" "set X \<inter> set RB = {}"
      by auto
    show ?thesis
    proof (cases "x \<in> set V")
      case True
      with less.prems(2) have "set (rev (nxt x)) \<subseteq> set V" by auto
      from visit_order_closed [OF less.prems(2) this s(1)] have RA: "set RA \<subseteq> set V" .
      from less.IH [OF lt(2) s(2) less.prems(2) X(3)] obtain k' where
        k': "visit_order True True nxt k' rest (X @ V) = Some (first_visits V RB)"
        "\<forall>v \<in> set V \<union> set RB. set (nxt v) \<subseteq> set V \<union> set RB" by blast
      from k'(1) have pos: "0 < k'" by (rule visit_order_Some_fuel)
      then obtain m where m: "k' = Suc m" by (cases k') simp_all
      from True k'(1) m Cons have 1: "visit_order True True nxt k' F (X @ V) = Some (first_visits V RB)"
        by simp
      from RA have "set (RA @ V) = set V" by auto
      then have "first_visits (RA @ V) RB = first_visits V RB" by (rule first_visits_seen)
      with True RA R'(1) s(3) have 2: "first_visits V R = first_visits V RB"
        by (simp add: first_visits_append first_visits_subset)
      from True RA R'(1) s(3) have "set V \<union> set R = set V \<union> set RB" by auto
      with 1 2 k'(2) show ?thesis by (intro exI [of _ k']) simp
    next
      case False
      from depth_first_acyclic [OF s(1)] have xRA: "x \<notin> set RA" .
      with X(2) have XA: "set (x # X) \<inter> set RA = {}" by simp
      from less.IH [OF lt(1) s(1) less.prems(2) XA] obtain k1 where
        k1: "visit_order True True nxt k1 (rev (nxt x)) ((x # X) @ V) = Some (first_visits V RA)"
        "\<forall>v \<in> set V \<union> set RA. set (nxt v) \<subseteq> set V \<union> set RA" by blast
      let ?DA = "first_visits V RA"
      let ?V1 = "x # RA @ V"
      from visit_order_plain_frontier [OF s(1)] have "set (nxt x) \<subseteq> set RA" by simp
      with k1(2) have cl1: "\<forall>v \<in> set ?V1. set (nxt v) \<subseteq> set ?V1" by auto
      from less.IH [OF lt(2) s(2) cl1 X(3)] obtain k2 where
        k2: "visit_order True True nxt k2 rest (X @ ?V1) = Some (first_visits ?V1 RB)"
        "\<forall>v \<in> set ?V1 \<union> set RB. set (nxt v) \<subseteq> set ?V1 \<union> set RB" by blast
      have "set (rev ?DA @ (x # X) @ V) = set (X @ ?V1)"
        by (auto simp: set_first_visits)
      from visit_order_seen [OF this] k2(1)
      have "visit_order True True nxt k2 rest (rev ?DA @ (x # X) @ V) = Some (first_visits ?V1 RB)"
        by simp
      from depth_first_join [OF k1(1) this]
      have "visit_order True True nxt (k1 + k2) (rev (nxt x) @ rest) (x # X @ V)
          = Some (?DA @ first_visits ?V1 RB)" by simp
      with False X(1) Cons
      have 1: "visit_order True True nxt (Suc (k1 + k2)) F (X @ V)
          = Some (x # ?DA @ first_visits ?V1 RB)" by simp
      have "set (RA @ x # V) = set ?V1" by auto
      then have "first_visits (RA @ x # V) RB = first_visits ?V1 RB" by (rule first_visits_seen)
      moreover have "first_visits (x # V) RA = first_visits V RA"
        using xRA by (rule first_visits_fresh)
      ultimately have 2: "first_visits V R = x # ?DA @ first_visits ?V1 RB"
        using False R'(1) s(3) by (simp add: first_visits_append)
      have "set V \<union> set R = set ?V1 \<union> set RB" using R'(1) s(3) by auto
      with 1 2 k2(2) show ?thesis by (intro exI [of _ "Suc (k1 + k2)"]) simp
    qed
  qed
qed





lemma visit_order_plain_closed:
  "visit_order False df nxt k F seen = Some R \<Longrightarrow> \<forall>v \<in> set R. set (nxt v) \<subseteq> set R"
proof (induction k arbitrary: F seen R)
  case 0
  then show ?case by simp
next
  case (Suc k)
  show ?case
  proof (cases F)
    case Nil
    with Suc.prems show ?thesis by simp
  next
    case (Cons x rest)
    with Suc.prems obtain R' where R': "R = x # R'"
      "visit_order False df nxt k (if df then rev (nxt x) @ rest else rest @ nxt x) (x # seen) = Some R'"
      by auto
    from visit_order_plain_frontier [OF R'(2)] have "set (nxt x) \<subseteq> set R'"
      by (auto split: if_splits)
    with Suc.IH [OF R'(2)] R'(1) show ?thesis by auto
  qed
qed






section \<open>Traversal orders\<close>

lemma for_traverseGraph_step:
  "tryGetNext sig = Inr (Some n, sig1) \<Longrightarrow>
   (if shouldYield (GraphSignal_next sig1 (nxt s n)) then body s n else (None, s)) = (eo, s') \<Longrightarrow>
   for_traverseGraph (Suc m) nxt body sig s =
     (case eo of
        Some e \<Rightarrow> Some (Some e, s')
      | None \<Rightarrow> for_traverseGraph m nxt body (cleanup (GraphSignal_next sig1 (nxt s n))) s')"
  by (simp add: Let_def split: option.split)

text \<open>A loop that ended with some fuel ends the same way with more.\<close>

lemma for_traverseGraph_more_fuel:
  "for_traverseGraph fuel nxt body sig s = Some r \<Longrightarrow>
     for_traverseGraph (fuel + k) nxt body sig s = Some r"
proof (induction fuel arbitrary: sig s)
  case 0
  then show ?case by simp
next
  case (Suc fuel)
  show ?case
  proof (cases "tryGetNext sig")
    case (Inl e)
    with Suc.prems show ?thesis by simp
  next
    case (Inr p)
    obtain on sig1 where p: "p = (on, sig1)" by (cases p)
    show ?thesis
    proof (cases on)
      case None
      with Inr p Suc.prems show ?thesis by simp
    next
      case (Some n)
      let ?sig2 = "GraphSignal_next sig1 (nxt s n)"
      obtain eo s' where b: "(if shouldYield ?sig2 then body s n else (None, s)) = (eo, s')"
        by (cases "if shouldYield ?sig2 then body s n else (None, s)")
      from Inr p Some have t: "tryGetNext sig = Inr (Some n, sig1)" by simp
      have step: "for_traverseGraph (Suc m) nxt body sig s =
          (case eo of
             Some e \<Rightarrow> Some (Some e, s')
           | None \<Rightarrow> for_traverseGraph m nxt body (cleanup ?sig2) s')" for m
        using t b by (rule for_traverseGraph_step [where nxt = nxt and body = body and s = s])
      show ?thesis
      proof (cases eo)
        case None
        with Suc.prems step [of fuel]
        have "for_traverseGraph fuel nxt body (cleanup ?sig2) s' = Some r" by simp
        then have "for_traverseGraph (fuel + k) nxt body (cleanup ?sig2) s' = Some r"
          by (rule Suc.IH)
        with None step [of "fuel + k"] show ?thesis by simp
      next
        case (Some e)
        with Suc.prems step [of fuel] step [of "fuel + k"] show ?thesis by simp
      qed
    qed
  qed
qed

lemma traverseGraph_more_fuel:
  assumes "traverseGraph fuel nxt rs dc ty = Some r"
  shows "traverseGraph (fuel + k) nxt rs dc ty = Some r"
proof -
  from assms obtain q where q: "for_traverseGraph fuel (\<lambda>acc. nxt) (\<lambda>acc n. (None, acc @ [n]))
             (GraphSignal_new rs dc ty) [] = Some q"
    by (auto simp: traverseGraph_def split: option.splits)
  from for_traverseGraph_more_fuel [OF q, of k] q assms show ?thesis
    by (simp add: traverseGraph_def)
qed


text \<open>The loop of the driver, collecting what it yields, follows the order of the spec:
  without cycle detection, and with it.\<close>

lemma for_traverseGraph_plain:
  "visited sig = None \<Longrightarrow> counted sig \<Longrightarrow>
   for_traverseGraph fuel (\<lambda>a. nxt) (\<lambda>a n. (None, a @ [n])) sig acc =
     map_option (\<lambda>ys. (None, acc @ ys))
       (visit_order False (isDepthFirst sig) nxt fuel (nodes sig) seen)"
proof (induction fuel arbitrary: sig acc seen)
  case 0
  show ?case by simp
next
  case (Suc fuel)
  from tryGetNext_plain_any [OF Suc.prems]
  show ?case
  proof (elim disjE exE conjE)
    assume "nodes sig = []" "tryGetNext sig = Inr (None, sig)"
    then show ?thesis by simp
  next
    fix x rest sig1
    assume a: "nodes sig = x # rest" "tryGetNext sig = Inr (Some x, sig1)" "nodes sig1 = rest"
      "visited sig1 = None" "isDepthFirst sig1 = isDepthFirst sig" "\<not> skipped sig1" "counted sig1"
    let ?sig3 = "cleanup (GraphSignal_next sig1 (nxt x))"
    have "for_traverseGraph fuel (\<lambda>a. nxt) (\<lambda>a n. (None, a @ [n])) ?sig3 (acc @ [x]) =
      map_option (\<lambda>ys. (None, (acc @ [x]) @ ys))
       (visit_order False (isDepthFirst ?sig3) nxt fuel (nodes ?sig3) (x # seen))"
      using a(4,7) by (intro Suc.IH) (simp_all add: visited_round counted_round)
    moreover from a(6) have "shouldYield (GraphSignal_next sig1 (nxt x))"
      by (simp add: shouldYield_def skipped_GraphSignal_next)
    ultimately show ?thesis using a
      by (simp add: Let_def nodes_round_exact isDepthFirst_round option.map_comp comp_def)
  qed
qed

lemma for_traverseGraph_detect:
  "visited sig = Some vs \<Longrightarrow> counted sig \<Longrightarrow>
   for_traverseGraph fuel (\<lambda>a. nxt) (\<lambda>a n. (None, a @ [n])) sig acc =
     map_option (\<lambda>ys. (None, acc @ ys))
       (visit_order True (isDepthFirst sig) nxt fuel (nodes sig) vs)"
proof (induction fuel arbitrary: sig acc vs)
  case 0
  show ?case by simp
next
  case (Suc fuel)
  from tryGetNext_detecting [OF Suc.prems]
  show ?case
  proof (elim disjE exE conjE)
    fix sig' assume t: "tryGetNext sig = Inr (None, sig')" and sub: "set (nodes sig) \<subseteq> set vs"
    from sub have "visit_order True (isDepthFirst sig) nxt (Suc fuel) (nodes sig @ []) vs = Some []"
      by (subst visit_order_discard) simp_all
    with t show ?thesis by simp
  next
    fix n sig1 pre
    assume t: "tryGetNext sig = Inr (Some n, sig1)" and n: "n \<notin> set vs"
      and fr: "nodes sig = pre @ n # nodes sig1" "set pre \<subseteq> set vs"
      and v1: "visited sig1 = Some (vs @ [n])"
      and s1: "\<not> skipped sig1" and d1: "isDepthFirst sig1 = isDepthFirst sig" and c1: "counted sig1"
    let ?sig3 = "cleanup (GraphSignal_next sig1 (nxt n))"
    have "for_traverseGraph fuel (\<lambda>a. nxt) (\<lambda>a n. (None, a @ [n])) ?sig3 (acc @ [n]) =
      map_option (\<lambda>ys. (None, (acc @ [n]) @ ys))
       (visit_order True (isDepthFirst ?sig3) nxt fuel (nodes ?sig3) (vs @ [n]))"
      using v1 c1 by (intro Suc.IH) (simp_all add: visited_round counted_round)
    moreover have "visit_order True (isDepthFirst ?sig3) nxt fuel (nodes ?sig3) (vs @ [n])
        = visit_order True (isDepthFirst ?sig3) nxt fuel (nodes ?sig3) (n # vs)"
      by (rule visit_order_seen) auto
    moreover from s1 have "shouldYield (GraphSignal_next sig1 (nxt n))"
      by (simp add: shouldYield_def skipped_GraphSignal_next)
    moreover have "visit_order True (isDepthFirst sig) nxt (Suc fuel) (nodes sig) vs
        = visit_order True (isDepthFirst sig) nxt (Suc fuel) (n # nodes sig1) vs"
      unfolding fr(1) using fr(2) by (rule visit_order_discard)
    ultimately show ?thesis using t n d1
      by (simp add: Let_def nodes_round_exact isDepthFirst_round option.map_comp comp_def)
  qed
qed

lemma traverseGraph_visit_order:
  "traverseGraph fuel nxt rs detectCycles type =
     map_option Inr
       (visit_order detectCycles (type = Some DepthFirst) nxt fuel
          (if type = Some DepthFirst then rev rs else rs) [])"
proof -
  let ?sig = "GraphSignal_new rs detectCycles type"
  have c: "counted ?sig" by (rule counted_new)
  have d: "isDepthFirst ?sig = (type = Some DepthFirst)"
    and n: "nodes ?sig = (if type = Some DepthFirst then rev rs else rs)"
    and v: "visited ?sig = (if detectCycles then Some [] else None)"
    by (simp_all add: GraphSignal_new_def Linear_attach_def Let_def)
  show ?thesis
  proof (cases detectCycles)
    case True
    with v have "visited ?sig = Some []" by simp
    from for_traverseGraph_detect [OF this c, of fuel nxt "[]"] d n True show ?thesis
      by (cases "visit_order True (type = Some DepthFirst) nxt fuel
            (if type = Some DepthFirst then rev rs else rs) []")
         (simp_all add: traverseGraph_def)
  next
    case False
    with v have "visited ?sig = None" by simp
    from for_traverseGraph_plain [OF this c, of fuel nxt "[]" "[]"] d n False show ?thesis
      by (cases "visit_order False (type = Some DepthFirst) nxt fuel
            (if type = Some DepthFirst then rev rs else rs) []")
         (simp_all add: traverseGraph_def)
  qed
qed









section \<open>Dismantling\<close>

lemma Node_detachSelf_branded:
  "parent (h n) = Some p \<Longrightarrow> isBranded h n \<Longrightarrow>
     Node_detachSelf h n = (Some MustClearBrandBeforeDetach, h)"
  by (simp add: Node_detachSelf_def)

lemma tryGetNext_first:
  "\<exists>sig1. tryGetNext (GraphSignal_new (c # cs) False None) = Inr (Some c, sig1) \<and> \<not> skipped sig1"
  by (simp add: tryGetNext.simps GraphSignal_new_def Linear_attach_def tryGetNextInternal_def
      Linear_tryDetach_def Let_def)

text \<open>
  Claim C3, as the code has it. \<^verbatim>\<open>dismantle\<close> validates nothing beforehand: it throws
  when \<^verbatim>\<open>detachSelf\<close> meets a branded node. It throws before any mutation when the first
  node it has to detach is branded: the node \<open>n\<close> itself when \<open>includeAncestry\<close> is true
  and \<open>n\<close> has a parent; the first child \<open>c\<close> of \<open>n\<close> (a child that has a parent) when \<open>n\<close>
  is a root or \<open>includeAncestry\<close> is false. The heap is then the one it started from.
\<close>

theorem Node_dismantle_first_branded:
  "(parent (h n) \<noteq> None \<and> isBranded h n
      \<longrightarrow> Node_dismantle (Suc fuel) h n True = Some (Some MustClearBrandBeforeDetach, h))
   \<and> ((parent (h n) = None \<or> \<not> includeAncestry)
        \<and> children_get h n = c # cs \<and> parent (h c) \<noteq> None \<and> isBranded h c
      \<longrightarrow> Node_dismantle (Suc (Suc fuel)) h n includeAncestry
            = Some (Some MustClearBrandBeforeDetach, h))"
proof (intro conjI impI)
  assume "parent (h n) \<noteq> None \<and> isBranded h n"
  then show "Node_dismantle (Suc fuel) h n True = Some (Some MustClearBrandBeforeDetach, h)"
    by (auto simp: Node_detachSelf_branded)
next
  assume a: "(parent (h n) = None \<or> \<not> includeAncestry)
        \<and> children_get h n = c # cs \<and> parent (h c) \<noteq> None \<and> isBranded h c"
  then have d: "Node_detachSelf h c = (Some MustClearBrandBeforeDetach, h)"
    by (auto simp: Node_detachSelf_branded)
  have loop: "for_traverseGraph (Suc fuel) children_get Node_detachSelf
          (GraphSignal_new (c # cs) False None) h = Some (Some MustClearBrandBeforeDetach, h)"
    using tryGetNext_first [of c cs]
    by (auto simp: d shouldYield_def skipped_GraphSignal_next Let_def)
  from a have "(case (parent (h n), includeAncestry) of
              (Some p, True) \<Rightarrow>
                (case Node_detachSelf h n of
                   (Some e, h1) \<Rightarrow> Some (Some e, h1)
                 | (None, h1) \<Rightarrow> Node_dismantle (Suc fuel) h1 p True)
            | (Some p, False) \<Rightarrow> Some (None, h)
            | (None, incl) \<Rightarrow> Some (None, h)) = Some (None, h)"
    by (auto split: option.splits bool.splits)
  with a loop show "Node_dismantle (Suc (Suc fuel)) h n includeAncestry
            = Some (Some MustClearBrandBeforeDetach, h)"
    by simp
qed

text \<open>The theorem in \<open>branded_tree\<close>: at the branded node 2, which has a parent, with
  its ancestry; and at the node 1, whose first child 3 is branded, without.\<close>

theorem Node_dismantle_first_branded_witness:
  "parent (branded_tree 2) \<noteq> None \<and> isBranded branded_tree 2
   \<and> Node_dismantle 1 branded_tree 2 True = Some (Some MustClearBrandBeforeDetach, branded_tree)
   \<and> children_get branded_tree 1 = [3] \<and> parent (branded_tree 3) \<noteq> None
   \<and> isBranded branded_tree 3
   \<and> Node_dismantle 2 branded_tree 1 False = Some (Some MustClearBrandBeforeDetach, branded_tree)"
proof -
  have 1: "parent (branded_tree 2) \<noteq> None \<and> isBranded branded_tree 2"
    by (simp add: branded_tree_evaluation)
  have 2: "(parent (branded_tree 1) = None \<or> \<not> False) \<and> children_get branded_tree 1 = [3]
      \<and> parent (branded_tree 3) \<noteq> None \<and> isBranded branded_tree 3"
    by (simp add: branded_tree_evaluation)
  from 1 Node_dismantle_first_branded [of branded_tree 2 0]
  have "Node_dismantle 1 branded_tree 2 True = Some (Some MustClearBrandBeforeDetach, branded_tree)"
    by simp
  moreover from 2 Node_dismantle_first_branded [of branded_tree 1 0 False 3 "[]"]
  have "Node_dismantle 2 branded_tree 1 False = Some (Some MustClearBrandBeforeDetach, branded_tree)"
    by (simp add: numeral_2_eq_2)
  ultimately show ?thesis using 1 2 by simp
qed

text \<open>
  Claim C3 as it is stated fails. In \<open>branded_chain\<close> the parent 1 of the node 2 is
  branded, and \<^verbatim>\<open>dismantle(true)\<close> of the node 2 throws only after it detached the node 2
  from it: the node 2 lost its parent and the node 1 its child. In \<open>branded_tree\<close> the
  child 2 of the node 0 is branded, and \<^verbatim>\<open>dismantle(false)\<close> of the node 0 throws only
  after it detached the child 1. And \<^verbatim>\<open>dismantle(false)\<close> of the branded node 2 itself
  returns without an error.
\<close>

theorem Node_dismantle_counterexample:
  "isBranded branded_chain 1 \<and> parent (branded_chain 2) = Some 1
   \<and> children_get branded_chain 1 = [2]
   \<and> Node_dismantle 5 branded_chain 2 True
       = Some (Some MustClearBrandBeforeDetach, branded_chain_after)
   \<and> parent (branded_chain_after 2) = None
   \<and> children_get branded_chain_after 1 = []
   \<and> isBranded branded_tree 2 \<and> children_get branded_tree 0 = [1, 2]
   \<and> parent (branded_tree 1) = Some 0
   \<and> Node_dismantle 5 branded_tree 0 False
       = Some (Some MustClearBrandBeforeDetach, branded_tree_after)
   \<and> parent (branded_tree_after 1) = None
   \<and> children_get branded_tree_after 0 = [2]
   \<and> Node_dismantle 5 branded_tree 2 False = Some (None, branded_tree)"
  by (simp add: branded_tree_evaluation)

section \<open>Copies handed out by the getters\<close>

text \<open>
  Claim C10. \<^verbatim>\<open>Node.children\<close>, \<^verbatim>\<open>Hierarchy.roots\<close> and \<^verbatim>\<open>Hierarchy.nodes\<close> each return an
  array that did not exist before, holding the children of the node, the contents of
  \<^verbatim>\<open>#roots\<close>, the values of \<^verbatim>\<open>#nodes\<close>. The array of the getters of a hierarchy is not its
  own \<^verbatim>\<open>#roots\<close>. Whatever is written into the returned array afterwards, the nodes and
  \<^verbatim>\<open>#roots\<close> stay as they were, and the next access returns another array, with the same
  contents as the first had. (The hierarchy exists: its array \<^verbatim>\<open>#roots\<close> was allocated.)
\<close>

theorem getters_return_fresh_copies:
  assumes "roots H < nextArray w"
  shows
   "(case Node_children w n of
       (a, w1) \<Rightarrow>
         a = nextArray w \<and> arrays w1 a = children_get (heap w) n
         \<and> heap (Array_write w1 a xs) = heap w
         \<and> arrays (Array_write w1 a xs) (roots H) = arrays w (roots H)
         \<and> (case Node_children (Array_write w1 a xs) n of
               (a2, w2) \<Rightarrow> a2 \<noteq> a \<and> arrays w2 a2 = children_get (heap w) n))
    \<and> (case Hierarchy_roots w H of
         (a, w1) \<Rightarrow>
           a = nextArray w \<and> a \<noteq> roots H \<and> arrays w1 a = arrays w (roots H)
           \<and> heap (Array_write w1 a xs) = heap w
           \<and> arrays (Array_write w1 a xs) (roots H) = arrays w (roots H)
           \<and> (case Hierarchy_roots (Array_write w1 a xs) H of
                 (a2, w2) \<Rightarrow> a2 \<noteq> a \<and> arrays w2 a2 = arrays w (roots H)))
    \<and> (case Hierarchy_nodes w H of
         (a, w1) \<Rightarrow>
           a = nextArray w \<and> a \<noteq> roots H \<and> arrays w1 a = Map_values (nodes_by_id H)
           \<and> heap (Array_write w1 a xs) = heap w
           \<and> arrays (Array_write w1 a xs) (roots H) = arrays w (roots H)
           \<and> (case Hierarchy_nodes (Array_write w1 a xs) H of
                 (a2, w2) \<Rightarrow> a2 \<noteq> a \<and> arrays w2 a2 = Map_values (nodes_by_id H)))"
  using assms
  by (auto simp: Node_children_def Hierarchy_roots_def Hierarchy_nodes_def Array_new_def
      Array_write_def)

text \<open>The theorem at the hierarchy of \<open>family\<close>: the array of the children of A is
  emptied, the array of the roots is overwritten.\<close>

theorem getters_return_fresh_copies_witness:
  "roots family_H < nextArray family_w
   \<and> Node_children family_w 0
       = (1, family_w\<lparr>arrays := (arrays family_w)(1 := [1]), nextArray := 2\<rparr>)
   \<and> arrays family_w (roots family_H) = [0]
   \<and> arrays (Array_write (snd (Hierarchy_roots family_w family_H))
               (fst (Hierarchy_roots family_w family_H)) [7, 8])
        (roots family_H) = [0]
   \<and> heap (Array_write (snd (Node_children family_w 0)) (fst (Node_children family_w 0)) [])
       = heap family_w"
proof -
  have h: "roots family_H < nextArray family_w" by (simp add: family_evaluation)
  have r: "arrays family_w (roots family_H) = [0]" by (simp add: family_evaluation)
  have c: "Node_children family_w 0
      = (1, family_w\<lparr>arrays := (arrays family_w)(1 := [1]), nextArray := 2\<rparr>)"
    by (simp add: Node_children_def family_evaluation)
  from getters_return_fresh_copies [OF h, of 0 "[]"]
  have 1: "heap (Array_write (snd (Node_children family_w 0)) (fst (Node_children family_w 0)) [])
       = heap family_w"
    unfolding case_prod_beta by blast
  from getters_return_fresh_copies [OF h, of 0 "[7, 8]"]
  have 2: "arrays (Array_write (snd (Hierarchy_roots family_w family_H))
               (fst (Hierarchy_roots family_w family_H)) [7, 8])
        (roots family_H) = arrays family_w (roots family_H)"
    unfolding case_prod_beta by blast
  from h r c 1 2 show ?thesis by simp
qed

section \<open>Cycle detection\<close>

lemma reachable_roots: "set rs \<subseteq> reachable nxt rs"
  by (auto simp: reachable_def)

lemma reachable_step: "x \<in> reachable nxt rs \<Longrightarrow> set (nxt x) \<subseteq> reachable nxt rs"
  by (auto simp: reachable_def edges_def intro: rtrancl_into_rtrancl)

lemma reachable_least:
  assumes "set rs \<subseteq> S" and "\<forall>v \<in> S. set (nxt v) \<subseteq> S"
  shows "reachable nxt rs \<subseteq> S"
proof
  fix y assume "y \<in> reachable nxt rs"
  then obtain r where r: "r \<in> set rs" and p: "(r, y) \<in> (edges nxt)\<^sup>*"
    by (auto simp: reachable_def)
  from p show "y \<in> S"
  proof (induction rule: rtrancl_induct)
    case base
    with r assms(1) show ?case by auto
  next
    case (step y z)
    with assms(2) show ?case by (auto simp: edges_def)
  qed
qed

lemma traversal_inv_round:
  assumes inv: "traversal_inv nxt rs sig acc"
    and n: "n \<notin> set acc"
    and v: "visited sig1 = Some (acc @ [n])"
    and fr: "nodes sig = pre @ n # nodes sig1" "set pre \<subseteq> set acc"
    and c: "counted sig1"
  shows "traversal_inv nxt rs (cleanup (GraphSignal_next sig1 (nxt n))) (acc @ [n])"
proof -
  let ?sig3 = "cleanup (GraphSignal_next sig1 (nxt n))"
  from fr have sub: "set (nodes sig1) \<subseteq> set (nodes sig)"
    "set (nodes sig) \<subseteq> set acc \<union> {n} \<union> set (nodes sig1)" and nf: "n \<in> set (nodes sig)"
    by auto
  from inv have closed: "\<forall>v \<in> set acc. set (nxt v) \<subseteq> set acc \<union> set (nodes sig)"
    and rs: "set rs \<subseteq> set acc \<union> set (nodes sig)" and d: "distinct acc"
    and aR: "set acc \<subseteq> reachable nxt rs" and fR: "set (nodes sig) \<subseteq> reachable nxt rs"
    unfolding traversal_inv_def by blast+
  from fR nf have nR: "n \<in> reachable nxt rs" by blast
  then have cR: "set (nxt n) \<subseteq> reachable nxt rs" by (rule reachable_step)
  have 1: "visited ?sig3 = Some (acc @ [n])" using v by (simp add: visited_round)
  have 2: "distinct (acc @ [n])" using d n by simp
  have 3: "counted ?sig3" using c by (rule counted_round)
  have 4: "set (acc @ [n]) \<subseteq> reachable nxt rs" using aR nR by simp
  have 5: "set (nodes ?sig3) \<subseteq> reachable nxt rs"
    unfolding nodes_round using sub fR cR by blast
  have 6: "\<forall>v \<in> set (acc @ [n]). set (nxt v) \<subseteq> set (acc @ [n]) \<union> set (nodes ?sig3)"
    unfolding nodes_round using closed sub by auto
  have 7: "set rs \<subseteq> set (acc @ [n]) \<union> set (nodes ?sig3)"
    unfolding nodes_round using rs sub by auto
  from 1 2 3 4 5 6 7 show ?thesis unfolding traversal_inv_def by blast
qed

text \<open>The loop that collects the nodes of a cycle-detecting traversal ends, without an
  error, once its fuel exceeds the number of reachable nodes not yet yielded.\<close>

lemma for_traverseGraph_detecting:
  assumes "finite (reachable nxt rs)"
  shows "traversal_inv nxt rs sig acc \<Longrightarrow> card (reachable nxt rs - set acc) < fuel \<Longrightarrow>
    \<exists>ys. for_traverseGraph fuel (\<lambda>a. nxt) (\<lambda>a n. (None, a @ [n])) sig acc = Some (None, ys)
       \<and> distinct ys \<and> set ys = reachable nxt rs"
proof (induction fuel arbitrary: sig acc)
  case 0
  then show ?case by simp
next
  case (Suc fuel)
  from Suc.prems(1) have v: "visited sig = Some acc" and c: "counted sig"
    by (auto simp: traversal_inv_def)
  from tryGetNext_detecting [OF v c]
  show ?case
  proof (elim disjE exE conjE)
    fix sig' assume t: "tryGetNext sig = Inr (None, sig')" and sub: "set (nodes sig) \<subseteq> set acc"
    from Suc.prems(1) sub have "set rs \<subseteq> set acc" "\<forall>v \<in> set acc. set (nxt v) \<subseteq> set acc"
      unfolding traversal_inv_def by blast+
    then have "reachable nxt rs \<subseteq> set acc" by (rule reachable_least)
    with Suc.prems(1) t show ?thesis by (auto simp: traversal_inv_def)
  next
    fix n sig1 pre
    assume t: "tryGetNext sig = Inr (Some n, sig1)" and n: "n \<notin> set acc"
      and fr: "nodes sig = pre @ n # nodes sig1" "set pre \<subseteq> set acc"
      and v1: "visited sig1 = Some (acc @ [n])"
      and s1: "\<not> skipped sig1" and c1: "counted sig1"
    let ?sig3 = "cleanup (GraphSignal_next sig1 (nxt n))"
    have inv': "traversal_inv nxt rs ?sig3 (acc @ [n])"
      using Suc.prems(1) n v1 fr c1 by (rule traversal_inv_round)
    from Suc.prems(1) n fr(1) have nR: "n \<in> reachable nxt rs - set acc"
      by (auto simp: traversal_inv_def)
    have "reachable nxt rs - set (acc @ [n]) = (reachable nxt rs - set acc) - {n}" by auto
    moreover from assms have "finite (reachable nxt rs - set acc)" by simp
    from card_Diff1_less [OF this nR]
    have "card (reachable nxt rs - set acc - {n}) < card (reachable nxt rs - set acc)" .
    ultimately have "card (reachable nxt rs - set (acc @ [n])) < card (reachable nxt rs - set acc)"
      by simp
    with Suc.prems(2) have "card (reachable nxt rs - set (acc @ [n])) < fuel" by simp
    from Suc.IH [OF inv' this] obtain ys where
      ys: "for_traverseGraph fuel (\<lambda>a. nxt) (\<lambda>a n. (None, a @ [n])) ?sig3 (acc @ [n]) = Some (None, ys)"
        "distinct ys" "set ys = reachable nxt rs" by blast
    from s1 have y: "shouldYield (GraphSignal_next sig1 (nxt n))"
      by (simp add: shouldYield_def skipped_GraphSignal_next)
    from t y ys(1)
    have "for_traverseGraph (Suc fuel) (\<lambda>a. nxt) (\<lambda>a n. (None, a @ [n])) sig acc = Some (None, ys)"
      by (simp add: Let_def)
    with ys show ?thesis by blast
  qed
qed

lemma traversal_inv_new: "traversal_inv nxt rs (GraphSignal_new rs True type) []"
  by (auto simp: traversal_inv_def GraphSignal_new_def Linear_attach_def Let_def counted_def
      reachable_roots [THEN subsetD])

lemma traverseGraph_detecting:
  assumes "finite (reachable nxt rs)"
  shows "\<exists>ys. distinct ys \<and> set ys = reachable nxt rs
          \<and> (\<forall>k. traverseGraph (Suc (card (reachable nxt rs)) + k) nxt rs True type = Some (Inr ys))"
proof -
  have "card (reachable nxt rs - set []) < Suc (card (reachable nxt rs))" by simp
  from for_traverseGraph_detecting [OF assms traversal_inv_new this]
  obtain ys where ys: "for_traverseGraph (Suc (card (reachable nxt rs))) (\<lambda>a. nxt) (\<lambda>a n. (None, a @ [n]))
      (GraphSignal_new rs True type) [] = Some (None, ys)" "distinct ys" "set ys = reachable nxt rs"
    by blast
  have "traverseGraph (Suc (card (reachable nxt rs)) + k) nxt rs True type = Some (Inr ys)" for k
    using for_traverseGraph_more_fuel [OF ys(1), of k] by (simp add: traverseGraph_def)
  with ys show ?thesis by blast
qed

text \<open>When the traversal without cycle detection ends, the graph reachable from the roots
  is finite, and the traversal with cycle detection yields the same nodes in the order
  of their first visit.\<close>

lemma traverseGraph_first_visits:
  assumes "traverseGraph fuel nxt rs False type = Some (Inr P)"
  shows "finite (reachable nxt rs)"
    and "traverseGraph (Suc (card (reachable nxt rs)) + k) nxt rs True type
          = Some (Inr (first_visits [] P))"
proof -
  let ?F = "if type = Some DepthFirst then rev rs else rs"
  from assms have p: "visit_order False (type = Some DepthFirst) nxt fuel ?F [] = Some P"
    by (auto simp: traverseGraph_visit_order)
  from visit_order_plain_frontier [OF p] have "set rs \<subseteq> set P" by (auto split: if_splits)
  moreover from p have "\<forall>v \<in> set P. set (nxt v) \<subseteq> set P" by (rule visit_order_plain_closed)
  ultimately have "reachable nxt rs \<subseteq> set P" by (rule reachable_least)
  then show fin: "finite (reachable nxt rs)" by (rule finite_subset) simp
  have "\<exists>j. visit_order True (type = Some DepthFirst) nxt j ?F [] = Some (first_visits [] P)"
  proof (cases "type = Some DepthFirst")
    case True
    with p have "visit_order False True nxt fuel ?F [] = Some P" by simp
    from depth_first_first_visits [OF this, of "[]" "[]"] True show ?thesis by auto
  next
    case False
    with p have "visit_order False False nxt fuel ?F [] = Some P" by simp
    from breadth_first_first_visits [OF this, of "[]" ?F] False show ?thesis by auto
  qed
  then obtain j where "traverseGraph j nxt rs True type = Some (Inr (first_visits [] P))"
    by (auto simp: traverseGraph_visit_order)
  from traverseGraph_more_fuel [OF this, of "Suc (card (reachable nxt rs))"]
  have j: "traverseGraph (Suc (card (reachable nxt rs)) + j) nxt rs True type
      = Some (Inr (first_visits [] P))" by (simp add: add.commute)
  from traverseGraph_detecting [OF fin, of type] obtain ys where
    ys: "\<forall>k. traverseGraph (Suc (card (reachable nxt rs)) + k) nxt rs True type = Some (Inr ys)"
    by blast
  from ys [rule_format, of j] j have "ys = first_visits [] P" by simp
  with ys show "traverseGraph (Suc (card (reachable nxt rs)) + k) nxt rs True type
      = Some (Inr (first_visits [] P))" by simp
qed

text \<open>
  Claim C5. Over a graph with finitely many nodes reachable from the roots, cyclic or
  not, the traversal with cycle detection, breadth-first or depth-first, ends without an
  error as soon as its fuel exceeds the number of reachable nodes, and what it yields is
  each reachable node exactly once, in the order of \<open>visit_order\<close>. At each pull (with \<open>acc\<close> the nodes yielded so far,
  the visited set) the nodes at the head of the frontier that were yielded before are
  dropped without an error, and the first node of the frontier not yet yielded is the
  one yielded next; when none is left the traversal ends.

  The order of the yields is the order of the first visits. With any fuel, what the
  traversal with cycle detection returns is \<open>visit_order\<close> with the discarding on, from
  the frontier that the roots make, and what the traversal without it returns is
  \<open>visit_order\<close> with the discarding off: the two pull from a frontier that is fed in the
  same way, and the detecting one yields a node the first time it is pulled. And
  whenever the traversal without cycle detection ends (no cycle is reachable), the
  traversal with it yields exactly that list with the later visits of each node dropped.
\<close>

theorem traverseGraph_detectCycles:
  "(finite (reachable nxt rs) \<longrightarrow>
      (\<exists>ys. distinct ys \<and> set ys = reachable nxt rs
         \<and> (\<forall>k. traverseGraph (Suc (card (reachable nxt rs)) + k) nxt rs True type
                = Some (Inr ys))
         \<and> (\<forall>k. visit_order True (type = Some DepthFirst) nxt (Suc (card (reachable nxt rs)) + k)
                  (if type = Some DepthFirst then rev rs else rs) [] = Some ys)))
   \<and> (visited sig = Some acc \<and> counted sig \<longrightarrow>
        (\<exists>sig'. tryGetNext sig = Inr (None, sig') \<and> set (nodes sig) \<subseteq> set acc)
      \<or> (\<exists>n sig1 pre. tryGetNext sig = Inr (Some n, sig1)
            \<and> nodes sig = pre @ n # nodes sig1 \<and> set pre \<subseteq> set acc \<and> n \<notin> set acc
            \<and> visited sig1 = Some (acc @ [n])))
   \<and> traverseGraph fuel nxt rs True type =
       map_option Inr
         (visit_order True (type = Some DepthFirst) nxt fuel
            (if type = Some DepthFirst then rev rs else rs) [])
   \<and> traverseGraph fuel nxt rs False type =
       map_option Inr
         (visit_order False (type = Some DepthFirst) nxt fuel
            (if type = Some DepthFirst then rev rs else rs) [])
   \<and> (traverseGraph fuel nxt rs False type = Some (Inr P) \<longrightarrow>
        finite (reachable nxt rs)
        \<and> (\<forall>k. traverseGraph (Suc (card (reachable nxt rs)) + k) nxt rs True type
               = Some (Inr (first_visits [] P))))"
proof (intro conjI impI allI)
  assume "finite (reachable nxt rs)"
  from traverseGraph_detecting [OF this, of type] obtain ys where
    ys: "distinct ys" "set ys = reachable nxt rs"
      "\<forall>k. traverseGraph (Suc (card (reachable nxt rs)) + k) nxt rs True type = Some (Inr ys)"
    by blast
  from ys(3) have "\<forall>k. visit_order True (type = Some DepthFirst) nxt
      (Suc (card (reachable nxt rs)) + k) (if type = Some DepthFirst then rev rs else rs) []
      = Some ys"
    by (auto simp: traverseGraph_visit_order)
  with ys show "\<exists>ys. distinct ys \<and> set ys = reachable nxt rs
         \<and> (\<forall>k. traverseGraph (Suc (card (reachable nxt rs)) + k) nxt rs True type
                = Some (Inr ys))
         \<and> (\<forall>k. visit_order True (type = Some DepthFirst) nxt (Suc (card (reachable nxt rs)) + k)
                  (if type = Some DepthFirst then rev rs else rs) [] = Some ys)"
    by blast
next
  assume "visited sig = Some acc \<and> counted sig"
  then have "visited sig = Some acc" "counted sig" by simp_all
  from tryGetNext_detecting [OF this]
  show "(\<exists>sig'. tryGetNext sig = Inr (None, sig') \<and> set (nodes sig) \<subseteq> set acc)
      \<or> (\<exists>n sig1 pre. tryGetNext sig = Inr (Some n, sig1)
            \<and> nodes sig = pre @ n # nodes sig1 \<and> set pre \<subseteq> set acc \<and> n \<notin> set acc
            \<and> visited sig1 = Some (acc @ [n]))"
    by blast
next
  show "traverseGraph fuel nxt rs True type =
       map_option Inr
         (visit_order True (type = Some DepthFirst) nxt fuel
            (if type = Some DepthFirst then rev rs else rs) [])"
    by (rule traverseGraph_visit_order)
  show "traverseGraph fuel nxt rs False type =
       map_option Inr
         (visit_order False (type = Some DepthFirst) nxt fuel
            (if type = Some DepthFirst then rev rs else rs) [])"
    by (rule traverseGraph_visit_order)
next
  assume "traverseGraph fuel nxt rs False type = Some (Inr P)"
  then show "finite (reachable nxt rs)" by (rule traverseGraph_first_visits)
next
  fix k assume "traverseGraph fuel nxt rs False type = Some (Inr P)"
  then show "traverseGraph (Suc (card (reachable nxt rs)) + k) nxt rs True type
      = Some (Inr (first_visits [] P))" by (rule traverseGraph_first_visits)
qed

lemma finite_back_edge: "finite (reachable back_edge [0])"
proof -
  have "reachable back_edge [0] \<subseteq> {0, 1, 2}"
    by (rule reachable_least) (auto simp: back_edge_def)
  then show ?thesis by (rule finite_subset) simp
qed

lemma finite_back_edge_fork: "finite (reachable back_edge_fork [0])"
proof -
  have "reachable back_edge_fork [0] \<subseteq> {0, 1, 2, 3}"
    by (rule reachable_least) (auto simp: back_edge_fork_def)
  then show ?thesis by (rule finite_subset) simp
qed

text \<open>
  The theorem at three graphs. Root to A to B and back to A: the reachable nodes are the
  three, and both traversals yield them as \<open>[root, A, B]\<close>; after B, the frontier holds A
  again, which is dropped, and the traversal ends. The diamond with the back-edge to the
  root, where the root has two successors: the four reachable nodes are yielded once,
  breadth-first as \<open>[0, 1, 2, 3]\<close> and depth-first as \<open>[0, 2, 3, 1]\<close>, the orders of
  \<open>visit_order\<close>. The diamond, which has no cycle: the plain traversals yield
  \<open>[0, 1, 2, 3, 3]\<close> and \<open>[0, 2, 3, 1, 3]\<close>, and the detecting ones these lists without the
  second visit of the node 3.
\<close>

theorem traverseGraph_detectCycles_witness:
  "finite (reachable back_edge [0])
   \<and> reachable back_edge [0] = {0, 1, 2}
   \<and> traverseGraph 4 back_edge [0] True None = Some (Inr [0, 1, 2])
   \<and> traverseGraph 4 back_edge [0] True (Some DepthFirst) = Some (Inr [0, 1, 2])
   \<and> visited back_edge_last = Some [0, 1, 2] \<and> counted back_edge_last
   \<and> nodes back_edge_last = [1]
   \<and> (\<exists>sig'. tryGetNext back_edge_last = Inr (None, sig'))
   \<and> finite (reachable back_edge_fork [0])
   \<and> reachable back_edge_fork [0] = {0, 1, 2, 3}
   \<and> traverseGraph 5 back_edge_fork [0] True None = Some (Inr [0, 1, 2, 3])
   \<and> traverseGraph 5 back_edge_fork [0] True (Some DepthFirst) = Some (Inr [0, 2, 3, 1])
   \<and> visit_order True False back_edge_fork 5 [0] [] = Some [0, 1, 2, 3]
   \<and> visit_order True True back_edge_fork 5 [0] [] = Some [0, 2, 3, 1]
   \<and> traverseGraph 6 diamond [0] False None = Some (Inr [0, 1, 2, 3, 3])
   \<and> traverseGraph 6 diamond [0] False (Some DepthFirst) = Some (Inr [0, 2, 3, 1, 3])
   \<and> first_visits [] [0, 1, 2, 3, 3 :: nat] = [0, 1, 2, 3]
   \<and> first_visits [] [0, 2, 3, 1, 3 :: nat] = [0, 2, 3, 1]
   \<and> reachable diamond [0] = {0, 1, 2, 3}
   \<and> traverseGraph 5 diamond [0] True None = Some (Inr [0, 1, 2, 3])
   \<and> traverseGraph 5 diamond [0] True (Some DepthFirst) = Some (Inr [0, 2, 3, 1])"
proof -
  have bfs: "traverseGraph 4 back_edge [0] True None = Some (Inr [0, 1, 2])"
    by (simp add: back_edge_def evaluation)
  have dfs: "traverseGraph 4 back_edge [0] True (Some DepthFirst) = Some (Inr [0, 1, 2])"
    by (simp add: back_edge_def evaluation)
  have sg: "visited back_edge_last = Some [0, 1, 2] \<and> counted back_edge_last"
    "nodes back_edge_last = [1]"
    by (simp_all add: back_edge_last_def counted_def)
  let ?c = "Suc (card (reachable back_edge [0]))"
  note inst = traverseGraph_detectCycles [of back_edge "[0]" None back_edge_last "[0, 1, 2]"]
  from inst finite_back_edge
  obtain ys where ys: "set ys = reachable back_edge [0]"
    "traverseGraph (?c + 4) back_edge [0] True None = Some (Inr ys)" by blast
  from traverseGraph_more_fuel [OF bfs, of ?c]
  have "traverseGraph (?c + 4) back_edge [0] True None = Some (Inr [0, 1, 2])"
    by (simp add: add.commute)
  with ys have r: "reachable back_edge [0] = {0, 1, 2}" by auto
  from inst sg have "(\<exists>sig'. tryGetNext back_edge_last = Inr (None, sig'))
      \<or> (\<exists>n sig1 pre. tryGetNext back_edge_last = Inr (Some n, sig1)
            \<and> nodes back_edge_last = pre @ n # nodes sig1 \<and> set pre \<subseteq> set [0, 1, 2]
            \<and> n \<notin> set [0, 1, 2])"
    by blast
  moreover have "\<not> (\<exists>n sig1 pre. nodes back_edge_last = pre @ n # nodes sig1
      \<and> set pre \<subseteq> set [0, 1, 2] \<and> n \<notin> set [0, 1, 2])"
    by (auto simp: sg(2) append_eq_Cons_conv Cons_eq_append_conv)
  ultimately have last: "\<exists>sig'. tryGetNext back_edge_last = Inr (None, sig')" by blast
  have 1: "finite (reachable back_edge [0]) \<and> reachable back_edge [0] = {0, 1, 2}
     \<and> traverseGraph 4 back_edge [0] True None = Some (Inr [0, 1, 2])
     \<and> traverseGraph 4 back_edge [0] True (Some DepthFirst) = Some (Inr [0, 1, 2])
     \<and> visited back_edge_last = Some [0, 1, 2] \<and> counted back_edge_last
     \<and> nodes back_edge_last = [1]
     \<and> (\<exists>sig'. tryGetNext back_edge_last = Inr (None, sig'))"
    using finite_back_edge r bfs dfs sg last by simp

  have vb: "visit_order True False back_edge_fork 5 [0] [] = Some [0, 1, 2, 3]"
    and vd: "visit_order True True back_edge_fork 5 [0] [] = Some [0, 2, 3, 1]"
    by (simp_all add: back_edge_fork_def eval_nat_numeral)
  note fork = traverseGraph_detectCycles [of back_edge_fork "[0]"]
  from fork [of None back_edge_last "[]" 5 "[]"] vb
  have fb: "traverseGraph 5 back_edge_fork [0] True None = Some (Inr [0, 1, 2, 3])" by simp
  from fork [of "Some DepthFirst" back_edge_last "[]" 5 "[]"] vd
  have fd: "traverseGraph 5 back_edge_fork [0] True (Some DepthFirst) = Some (Inr [0, 2, 3, 1])"
    by simp
  let ?cf = "Suc (card (reachable back_edge_fork [0]))"
  from fork [of None back_edge_last "[]" 5 "[]"] finite_back_edge_fork
  obtain zs where zs: "set zs = reachable back_edge_fork [0]"
    "traverseGraph (?cf + 5) back_edge_fork [0] True None = Some (Inr zs)" by blast
  from traverseGraph_more_fuel [OF fb, of ?cf]
  have "traverseGraph (?cf + 5) back_edge_fork [0] True None = Some (Inr [0, 1, 2, 3])"
    by (simp add: add.commute)
  with zs have rf: "reachable back_edge_fork [0] = {0, 1, 2, 3}" by auto
  have 2: "finite (reachable back_edge_fork [0]) \<and> reachable back_edge_fork [0] = {0, 1, 2, 3}
     \<and> traverseGraph 5 back_edge_fork [0] True None = Some (Inr [0, 1, 2, 3])
     \<and> traverseGraph 5 back_edge_fork [0] True (Some DepthFirst) = Some (Inr [0, 2, 3, 1])
     \<and> visit_order True False back_edge_fork 5 [0] [] = Some [0, 1, 2, 3]
     \<and> visit_order True True back_edge_fork 5 [0] [] = Some [0, 2, 3, 1]"
    using finite_back_edge_fork rf fb fd vb vd by simp

  have pb: "traverseGraph 6 diamond [0] False None = Some (Inr [0, 1, 2, 3, 3])"
    and pd: "traverseGraph 6 diamond [0] False (Some DepthFirst) = Some (Inr [0, 2, 3, 1, 3])"
    by (simp_all add: diamond_def evaluation)
  have fv: "first_visits [] [0, 1, 2, 3, 3 :: nat] = [0, 1, 2, 3]"
    "first_visits [] [0, 2, 3, 1, 3 :: nat] = [0, 2, 3, 1]"
    by simp_all
  note dia = traverseGraph_detectCycles [of diamond "[0]"]
  let ?cd = "Suc (card (reachable diamond [0]))"
  from dia [of None back_edge_last "[]" 6 "[0, 1, 2, 3, 3]"] pb
  have fin: "finite (reachable diamond [0])"
    and db: "traverseGraph (?cd + 0) diamond [0] True None = Some (Inr (first_visits [] [0, 1, 2, 3, 3]))"
    by blast+
  from dia [of "Some DepthFirst" back_edge_last "[]" 6 "[0, 2, 3, 1, 3]"] pd
  have dd: "traverseGraph (?cd + 0) diamond [0] True (Some DepthFirst)
      = Some (Inr (first_visits [] [0, 2, 3, 1, 3]))"
    by blast
  from dia [of None back_edge_last "[]" 6 "[]"] fin obtain ws where ws: "distinct ws" "set ws = reachable diamond [0]"
    "traverseGraph (?cd + 0) diamond [0] True None = Some (Inr ws)" by blast
  from ws(3) db fv have "ws = [0, 1, 2, 3]" by simp
  with ws(2) have rd: "reachable diamond [0] = {0, 1, 2, 3}" by auto
  then have "?cd = 5" by simp
  with db dd fv have 3: "traverseGraph 5 diamond [0] True None = Some (Inr [0, 1, 2, 3])
     \<and> traverseGraph 5 diamond [0] True (Some DepthFirst) = Some (Inr [0, 2, 3, 1])"
    by simp
  from 1 2 3 pb pd fv rd show ?thesis by blast
qed

end
